theory Spec2Isabelle
  imports Main "HOL-Library.Word"
begin

chapter \<open>The frame table and the directory layer of cs140-pintos\<close>

section \<open>Frame table (vm/frame.c)\<close>

subsection \<open>Data\<close>

text \<open>
  A \<^verbatim>\<open>struct frame *\<close> is the index of the frame in the list of frames that
  \<^verbatim>\<open>frame_init\<close> has allocated; a \<^verbatim>\<open>struct page *\<close> and a kernel address are
  plain numbers. The frame's \<^verbatim>\<open>page\<close> field is \<open>None\<close> for \<^verbatim>\<open>NULL\<close>.
\<close>

type_synonym frame_ptr = nat
type_synonym page_ptr = nat

record frame =
  kaddr :: nat
  page :: "page_ptr option"
  pinned :: bool

text \<open>
  The state the file works on: the frames on the heap, the two lists of the
  static \<^verbatim>\<open>struct frame_table ft\<close>, front first, and whether the running thread
  holds \<^verbatim>\<open>frame_table_lock\<close>.

  Modelled from the spec: \<^verbatim>\<open>struct frame_table\<close> (\<^verbatim>\<open>vm/frame.h\<close>) and the kernel's
  list library are not among the sources. The specification has every frame in
  at most one of the two lists; the intrusive \<^verbatim>\<open>elem\<close> of a frame is its
  occurrence in a list, and \<^verbatim>\<open>list_push_back\<close>, \<^verbatim>\<open>list_pop_back\<close> and the
  traversal from \<^verbatim>\<open>list_begin\<close> are those of a sequence.
\<close>

record vm_state =
  frames :: "frame list"
  free_frames :: "frame_ptr list"
  allocated_frames :: "frame_ptr list"
  table_locked :: bool

text \<open>
  How a call ends when it does not return: \<open>Panic\<close> is a kernel panic
  (\<^verbatim>\<open>PANIC\<close> or a failed \<^verbatim>\<open>ASSERT\<close>); \<open>Undefined\<close> is \<^verbatim>\<open>list_remove\<close> of an
  element that is in no list, which the kernel's list library leaves undefined.
\<close>

datatype fault = Panic | Undefined

subsection \<open>Operations\<close>

text \<open>
  Modelled from the spec: \<^verbatim>\<open>lock_acquire\<close> and \<^verbatim>\<open>lock_release\<close> of the kernel's
  synchronisation layer, on \<^verbatim>\<open>frame_table_lock\<close>. The lock is a mutex that is
  not recursive: the kernel panics when a thread acquires the lock it holds or
  releases a lock it does not hold.
\<close>

definition table_lock_acquire :: "vm_state \<Rightarrow> fault + vm_state" where
  "table_lock_acquire s = (if table_locked s then Inl Panic else Inr (s\<lparr>table_locked := True\<rparr>))"

definition table_lock_release :: "vm_state \<Rightarrow> fault + vm_state" where
  "table_lock_release s = (if table_locked s then Inr (s\<lparr>table_locked := False\<rparr>) else Inl Panic)"

text \<open>
  \<^verbatim>\<open>list_remove (&frame->elem)\<close>: unlinks the frame from the list it is in.
\<close>

definition list_remove :: "frame_ptr \<Rightarrow> vm_state \<Rightarrow> fault + vm_state" where
  "list_remove f s =
     (if f \<in> set (free_frames s) \<or> f \<in> set (allocated_frames s)
      then Inr (s\<lparr>free_frames := removeAll f (free_frames s),
                  allocated_frames := removeAll f (allocated_frames s)\<rparr>)
      else Inl Undefined)"

text \<open>
  \<^verbatim>\<open>frame_free\<close>: clears the page and the pin, unlinks the frame and pushes it at
  the back of the free list.
\<close>

definition frame_free :: "frame_ptr \<Rightarrow> vm_state \<Rightarrow> fault + vm_state" where
  "frame_free f s =
     (case table_lock_acquire s of
        Inl e \<Rightarrow> Inl e
      | Inr s1 \<Rightarrow>
          (case list_remove f
                  (s1\<lparr>frames := (frames s1)[f := (frames s1 ! f)\<lparr>page := None, pinned := False\<rparr>]\<rparr>) of
             Inl e \<Rightarrow> Inl e
           | Inr s2 \<Rightarrow> table_lock_release (s2\<lparr>free_frames := free_frames s2 @ [f]\<rparr>)))"

text \<open>
  \<^verbatim>\<open>frame_init\<close>: the loop takes the pages that \<^verbatim>\<open>palloc_get_page (PAL_USER)\<close>
  hands out until the user pool is exhausted (\<open>pool\<close>, in that order) and
  allocates one frame for each. \<open>room\<close> is the number of frames \<^verbatim>\<open>malloc\<close> can
  still provide; the \<^verbatim>\<open>ASSERT (frame != NULL)\<close> panics when it is used up. The
  loop runs between \<^verbatim>\<open>lock_acquire\<close>, on the lock that \<^verbatim>\<open>lock_init\<close> has just
  made, and \<^verbatim>\<open>lock_release\<close>.
\<close>

fun frame_init_loop :: "nat \<Rightarrow> nat list \<Rightarrow> vm_state \<Rightarrow> fault + vm_state" where
  "frame_init_loop room [] s = Inr s"
| "frame_init_loop room (upage # pool) s =
     (if room = 0 then Inl Panic
      else frame_init_loop (room - 1) pool
             (s\<lparr>frames := frames s @ [\<lparr>kaddr = upage, page = None, pinned = False\<rparr>],
                free_frames := free_frames s @ [length (frames s)]\<rparr>))"

definition frame_init :: "nat \<Rightarrow> nat list \<Rightarrow> fault + vm_state" where
  "frame_init room pool =
     (case frame_init_loop room pool
             \<lparr>frames = [], free_frames = [], allocated_frames = [], table_locked = True\<rparr> of
        Inl e \<Rightarrow> Inl e
      | Inr s \<Rightarrow> table_lock_release s)"

text \<open>
  \<^verbatim>\<open>frame_evict\<close>. \<^verbatim>\<open>page_evict\<close> belongs to the page layer and is a parameter:
  it tells whether the page gives up its frame, and does not touch the frame
  table. The first line is \<^verbatim>\<open>ASSERT (lock_held_by_current_thread (&frame_table_lock))\<close>.
\<close>

definition frame_evict ::
  "(page_ptr \<Rightarrow> bool) \<Rightarrow> frame_ptr \<Rightarrow> vm_state \<Rightarrow> fault + (bool \<times> vm_state)" where
  "frame_evict page_evict f s =
     (if \<not> table_locked s then Inl Panic
      else if pinned (frames s ! f) then Inr (False, s)
      else if (case page (frames s ! f) of None \<Rightarrow> False | Some p \<Rightarrow> \<not> page_evict p)
      then Inr (False, s)
      else (case list_remove f (s\<lparr>frames := (frames s)[f := (frames s ! f)\<lparr>page := None\<rparr>]\<rparr>) of
              Inl e \<Rightarrow> Inl e
            | Inr s1 \<Rightarrow> Inr (True, s1)))"

text \<open>
  The \<^verbatim>\<open>for\<close> loop of \<^verbatim>\<open>frame_pick_and_evict\<close> over the allocated list, from the
  front. A failed \<^verbatim>\<open>frame_evict\<close> leaves the list as it is, and the loop stops at
  the first success, so the loop visits the elements the list had on entry.
  The result is the local \<^verbatim>\<open>frame\<close> after the loop.
\<close>

fun pick_loop ::
  "(page_ptr \<Rightarrow> bool) \<Rightarrow> frame_ptr list \<Rightarrow> vm_state \<Rightarrow> fault + (frame_ptr option \<times> vm_state)" where
  "pick_loop page_evict [] s = Inr (None, s)"
| "pick_loop page_evict (f # es) s =
     (case frame_evict page_evict f s of
        Inl e \<Rightarrow> Inl e
      | Inr (ok, s1) \<Rightarrow> if ok then Inr (Some f, s1) else pick_loop page_evict es s1)"

definition frame_pick_and_evict ::
  "(page_ptr \<Rightarrow> bool) \<Rightarrow> vm_state \<Rightarrow> fault + (frame_ptr \<times> vm_state)" where
  "frame_pick_and_evict page_evict s =
     (if \<not> table_locked s then Inl Panic
      else if allocated_frames s = [] then Inl Panic
      else (case pick_loop page_evict (allocated_frames s) s of
              Inl e \<Rightarrow> Inl e
            | Inr (None, s1) \<Rightarrow> Inl Panic
            | Inr (Some f, s1) \<Rightarrow> Inr (f, s1)))"

text \<open>
  \<^verbatim>\<open>frame_alloc\<close>: \<^verbatim>\<open>list_pop_back\<close> of the free list when it is not empty, the
  eviction scan otherwise; then the frame is pinned and pushed at the back of the
  allocated list.
\<close>

definition frame_alloc ::
  "(page_ptr \<Rightarrow> bool) \<Rightarrow> vm_state \<Rightarrow> fault + (frame_ptr \<times> vm_state)" where
  "frame_alloc page_evict s =
     (case table_lock_acquire s of
        Inl e \<Rightarrow> Inl e
      | Inr s0 \<Rightarrow>
          (case (if free_frames s0 \<noteq> []
                 then Inr (last (free_frames s0), s0\<lparr>free_frames := butlast (free_frames s0)\<rparr>)
                 else frame_pick_and_evict page_evict s0) of
             Inl e \<Rightarrow> Inl e
           | Inr (f, s1) \<Rightarrow>
               (case table_lock_release
                       (s1\<lparr>frames := (frames s1)[f := (frames s1 ! f)\<lparr>pinned := True\<rparr>],
                           allocated_frames := allocated_frames s1 @ [f]\<rparr>) of
                  Inl e \<Rightarrow> Inl e
                | Inr s2 \<Rightarrow> Inr (f, s2))))"

text \<open>
  \<^verbatim>\<open>frame_pin\<close> and \<^verbatim>\<open>frame_unpin\<close>.
\<close>

definition frame_pin :: "frame_ptr \<Rightarrow> vm_state \<Rightarrow> fault + vm_state" where
  "frame_pin f s =
     (case table_lock_acquire s of
        Inl e \<Rightarrow> Inl e
      | Inr s1 \<Rightarrow>
          table_lock_release (s1\<lparr>frames := (frames s1)[f := (frames s1 ! f)\<lparr>pinned := True\<rparr>]\<rparr>))"

definition frame_unpin :: "frame_ptr \<Rightarrow> vm_state \<Rightarrow> fault + vm_state" where
  "frame_unpin f s =
     (case table_lock_acquire s of
        Inl e \<Rightarrow> Inl e
      | Inr s1 \<Rightarrow>
          table_lock_release (s1\<lparr>frames := (frames s1)[f := (frames s1 ! f)\<lparr>pinned := False\<rparr>]\<rparr>))"

subsection \<open>Notions used to state the properties\<close>

text \<open>
  \<^verbatim>\<open>frame_evict\<close> returns true on the frame when it is called, as
  \<^verbatim>\<open>frame_alloc\<close> calls it, with the table locked.
\<close>

definition evict_succeeds :: "(page_ptr \<Rightarrow> bool) \<Rightarrow> vm_state \<Rightarrow> frame_ptr \<Rightarrow> bool" where
  "evict_succeeds page_evict s f =
     (case frame_evict page_evict f (s\<lparr>table_locked := True\<rparr>) of
        Inl e \<Rightarrow> False
      | Inr (ok, s1) \<Rightarrow> ok)"

text \<open>
  The state a successful \<^verbatim>\<open>frame_evict\<close> of a linked frame leaves.
\<close>

definition evicted :: "frame_ptr \<Rightarrow> vm_state \<Rightarrow> vm_state" where
  "evicted f s = s\<lparr>frames := (frames s)[f := (frames s ! f)\<lparr>page := None\<rparr>],
                   free_frames := removeAll f (free_frames s),
                   allocated_frames := removeAll f (allocated_frames s)\<rparr>"

text \<open>
  What \<^verbatim>\<open>frame_alloc\<close> relies on: the elements of both lists are frames of the
  table, and a frame in the free list has no page (\<^verbatim>\<open>frame_init\<close> and
  \<^verbatim>\<open>frame_free\<close> clear it; \<^verbatim>\<open>frame_alloc\<close> itself does not).
\<close>

definition table_wf :: "vm_state \<Rightarrow> bool" where
  "table_wf s \<longleftrightarrow>
     (\<forall>f \<in> set (free_frames s). f < length (frames s) \<and> page (frames s ! f) = None) \<and>
     (\<forall>f \<in> set (allocated_frames s). f < length (frames s))"

text \<open>
  The invariant of the specification for one frame: in the free list or in the
  allocated list but not in both, and without page and pin when free.
\<close>

definition frame_inv :: "vm_state \<Rightarrow> frame_ptr \<Rightarrow> bool" where
  "frame_inv s f \<longleftrightarrow>
     (f \<in> set (free_frames s)) \<noteq> (f \<in> set (allocated_frames s)) \<and>
     (f \<in> set (free_frames s) \<longrightarrow> page (frames s ! f) = None \<and> \<not> pinned (frames s ! f))"

text \<open>
  The states between the calls of a sequence of \<^verbatim>\<open>frame_init\<close>, \<^verbatim>\<open>frame_alloc\<close>,
  \<^verbatim>\<open>frame_free\<close>, \<^verbatim>\<open>frame_pin\<close>, \<^verbatim>\<open>frame_unpin\<close> and \<^verbatim>\<open>frame_evict\<close> that return,
  when only allocated frames are pinned. \<open>by_evict\<close> is a call of \<^verbatim>\<open>frame_evict\<close>
  from outside \<^verbatim>\<open>frame_alloc\<close>. \<open>by_install\<close> is the page layer storing a page in
  the \<^verbatim>\<open>page\<close> field of a frame it has been allocated.
\<close>

inductive reachable :: "vm_state \<Rightarrow> bool" where
  by_init: "frame_init room pool = Inr s \<Longrightarrow> reachable s"
| by_alloc: "reachable s \<Longrightarrow> frame_alloc page_evict s = Inr (f, s') \<Longrightarrow> reachable s'"
| by_free: "reachable s \<Longrightarrow> f < length (frames s) \<Longrightarrow> frame_free f s = Inr s' \<Longrightarrow> reachable s'"
| by_pin: "reachable s \<Longrightarrow> f \<in> set (allocated_frames s) \<Longrightarrow> frame_pin f s = Inr s' \<Longrightarrow> reachable s'"
| by_unpin: "reachable s \<Longrightarrow> f < length (frames s) \<Longrightarrow> frame_unpin f s = Inr s' \<Longrightarrow> reachable s'"
| by_evict:
    "reachable s \<Longrightarrow> f < length (frames s) \<Longrightarrow> frame_evict page_evict f s = Inr (ok, s') \<Longrightarrow>
     reachable s'"
| by_install:
    "reachable s \<Longrightarrow> f \<in> set (allocated_frames s) \<Longrightarrow>
     reachable (s\<lparr>frames := (frames s)[f := (frames s ! f)\<lparr>page := pg\<rparr>]\<rparr>)"

text \<open>
  The invariant of the whole table that the proof carries through these calls.
\<close>

definition table_inv :: "vm_state \<Rightarrow> bool" where
  "table_inv s \<longleftrightarrow>
     \<not> table_locked s \<and> distinct (free_frames s) \<and> distinct (allocated_frames s) \<and>
     (\<forall>f \<in> set (free_frames s).
        f \<notin> set (allocated_frames s) \<and> f < length (frames s) \<and>
        page (frames s ! f) = None \<and> \<not> pinned (frames s ! f)) \<and>
     (\<forall>f \<in> set (allocated_frames s). f < length (frames s)) \<and>
     (\<forall>f < length (frames s). f \<in> set (free_frames s) \<or> f \<in> set (allocated_frames s))"

section \<open>Directory layer (filesys/directory.c)\<close>

subsection \<open>Data\<close>

type_synonym block_sector_t = "32 word"

text \<open>
  Modelled from the spec: \<^verbatim>\<open>NAME_MAX\<close> is declared in \<^verbatim>\<open>filesys/directory.h\<close> and
  \<^verbatim>\<open>ROOT_DIR_SECTOR\<close> in \<^verbatim>\<open>filesys/filesys.h\<close>, which are not among the sources.
  The specification calls the first implementation-defined and the second the
  well-known root sector; the values are those of the Pintos base system, and
  no general theorem below depends on them.
\<close>

definition NAME_MAX :: nat where
  "NAME_MAX = 14"

definition ROOT_DIR_SECTOR :: block_sector_t where
  "ROOT_DIR_SECTOR = 1"

text \<open>
  \<^verbatim>\<open>struct dir_entry\<close>. The name is the string before the terminating NUL of the
  \<^verbatim>\<open>name\<close> array.
\<close>

record dir_entry =
  inode_sector :: block_sector_t
  name :: string
  in_use :: bool

text \<open>
  \<^verbatim>\<open>struct dir\<close>. A \<^verbatim>\<open>struct inode *\<close> is the sector of the inode (the inode layer
  keeps one open inode for a sector) and a \<^verbatim>\<open>struct lock *\<close> is the sector of the
  inode the lock belongs to. Offsets into a directory, \<^verbatim>\<open>pos\<close> included, are
  counted in whole entries (\<^verbatim>\<open>sizeof (struct dir_entry)\<close> bytes each).
\<close>

record dir =
  inode :: block_sector_t
  lock :: block_sector_t
  pos :: nat

text \<open>
  Modelled from the spec: the inode layer (\<^verbatim>\<open>filesys/inode.c\<close>) is not among the
  sources. An inode is what the directory layer sees of it through the
  interface the specification lists: its contents read as an array of
  directory entries, whether it is a directory, its open count and whether it
  is marked for deletion.
\<close>

record inode =
  data :: "dir_entry list"
  isdir :: bool
  open_cnt :: int
  removed :: bool

text \<open>
  The state of the file system: the inodes by sector and the directory locks
  the running thread holds. Two logs are kept for the locking discipline only:
  the inodes that were read or written while the thread did not hold their
  lock, and the locks the thread has acquired and released, in the order of
  the calls.
\<close>

datatype lock_event = Acquire block_sector_t | Release block_sector_t

record filesys =
  inodes :: "block_sector_t \<Rightarrow> inode"
  held :: "block_sector_t set"
  unguarded :: "block_sector_t list"
  lock_log :: "lock_event list"

text \<open>
  What the code cannot decide itself during one call: whether \<^verbatim>\<open>inode_open\<close> of
  a sector returns an inode or \<^verbatim>\<open>NULL\<close>, whether the \<^verbatim>\<open>calloc\<close> of \<^verbatim>\<open>dir_open\<close>
  succeeds, and whether \<^verbatim>\<open>inode_write_at\<close> writes the whole entry.
\<close>

record env =
  open_ok :: "block_sector_t \<Rightarrow> bool"
  calloc_ok :: bool
  write_ok :: bool

subsection \<open>Locks\<close>

text \<open>
  Modelled from the spec: the locks are the mutexes of the kernel's
  synchronisation layer (\<^verbatim>\<open>threads/synch.c\<close>), which is not among the sources. A
  call that does not return is \<open>None\<close>: a thread that acquires a lock it holds,
  or releases one it does not hold, does not get past the call. A call that
  returns is entered in the log.
\<close>

definition lock_held_by_current_thread :: "block_sector_t \<Rightarrow> filesys \<Rightarrow> bool" where
  "lock_held_by_current_thread l fs \<longleftrightarrow> l \<in> held fs"

definition lock_acquire :: "block_sector_t \<Rightarrow> filesys \<Rightarrow> filesys option" where
  "lock_acquire l fs =
     (if l \<in> held fs then None
      else Some (fs\<lparr>held := insert l (held fs), lock_log := lock_log fs @ [Acquire l]\<rparr>))"

definition lock_release :: "block_sector_t \<Rightarrow> filesys \<Rightarrow> filesys option" where
  "lock_release l fs =
     (if l \<in> held fs
      then Some (fs\<lparr>held := held fs - {l}, lock_log := lock_log fs @ [Release l]\<rparr>)
      else None)"

subsection \<open>The inode layer\<close>

text \<open>
  Modelled from the spec: the functions of the inode layer that the directory
  layer consumes. \<^verbatim>\<open>inode_dir_lock\<close> returns the one lock of the inode.
  \<open>note_access\<close> logs a read or write of an inode whose lock the thread does
  not hold. \<^verbatim>\<open>inode_close\<close> accepts \<^verbatim>\<open>NULL\<close>; what the inode layer does with a
  marked inode at its last close is not part of the model.
\<close>

definition inode_dir_lock :: "block_sector_t \<Rightarrow> block_sector_t" where
  "inode_dir_lock i = i"

definition note_access :: "block_sector_t \<Rightarrow> filesys \<Rightarrow> filesys" where
  "note_access i fs =
     (if inode_dir_lock i \<in> held fs then fs else fs\<lparr>unguarded := unguarded fs @ [i]\<rparr>)"

definition inode_open :: "env \<Rightarrow> block_sector_t \<Rightarrow> filesys \<Rightarrow> block_sector_t option \<times> filesys" where
  "inode_open ev sector fs =
     (if open_ok ev sector
      then (Some sector,
            fs\<lparr>inodes := (inodes fs)(sector := (inodes fs sector)\<lparr>open_cnt := open_cnt (inodes fs sector) + 1\<rparr>)\<rparr>)
      else (None, fs))"

definition inode_reopen :: "block_sector_t \<Rightarrow> filesys \<Rightarrow> block_sector_t option \<times> filesys" where
  "inode_reopen i fs =
     (Some i, fs\<lparr>inodes := (inodes fs)(i := (inodes fs i)\<lparr>open_cnt := open_cnt (inodes fs i) + 1\<rparr>)\<rparr>)"

definition inode_close :: "block_sector_t option \<Rightarrow> filesys \<Rightarrow> filesys" where
  "inode_close ino fs =
     (case ino of
        None \<Rightarrow> fs
      | Some i \<Rightarrow> fs\<lparr>inodes := (inodes fs)(i := (inodes fs i)\<lparr>open_cnt := open_cnt (inodes fs i) - 1\<rparr>)\<rparr>)"

definition inode_remove :: "block_sector_t \<Rightarrow> filesys \<Rightarrow> filesys" where
  "inode_remove i fs = fs\<lparr>inodes := (inodes fs)(i := (inodes fs i)\<lparr>removed := True\<rparr>)\<rparr>"

definition inode_isdir :: "block_sector_t \<Rightarrow> filesys \<Rightarrow> bool" where
  "inode_isdir i fs = isdir (inodes fs i)"

definition inode_open_count :: "block_sector_t \<Rightarrow> filesys \<Rightarrow> int" where
  "inode_open_count i fs = open_cnt (inodes fs i)"

text \<open>
  Modelled from the spec: \<^verbatim>\<open>inode_read_at\<close> and \<^verbatim>\<open>inode_write_at\<close> for one whole
  entry at the offset of a slot. A read returns the entry, or is short
  (\<open>None\<close>) at and after the end of the file. A write replaces the slot or
  extends the file, or is short and leaves the slots as they are.
\<close>

definition inode_read_at :: "block_sector_t \<Rightarrow> nat \<Rightarrow> filesys \<Rightarrow> dir_entry option \<times> filesys" where
  "inode_read_at i ofs fs =
     (if ofs < length (data (inodes fs i)) then Some (data (inodes fs i) ! ofs) else None,
      note_access i fs)"

definition put_entry :: "dir_entry list \<Rightarrow> nat \<Rightarrow> dir_entry \<Rightarrow> dir_entry list" where
  "put_entry es ofs e =
     (if ofs < length es then es[ofs := e]
      else es @ replicate (ofs - length es) \<lparr>inode_sector = 0, name = [], in_use = False\<rparr> @ [e])"

definition inode_write_at ::
  "env \<Rightarrow> block_sector_t \<Rightarrow> dir_entry \<Rightarrow> nat \<Rightarrow> filesys \<Rightarrow> bool \<times> filesys" where
  "inode_write_at ev i e ofs fs =
     (if write_ok ev
      then (True, (note_access i fs)
                    \<lparr>inodes := (inodes fs)(i := (inodes fs i)\<lparr>data := put_entry (data (inodes fs i)) ofs e\<rparr>)\<rparr>)
      else (False, note_access i fs))"

subsection \<open>Operations\<close>

text \<open>
  \<^verbatim>\<open>dir_open\<close>, \<^verbatim>\<open>dir_open_root\<close>, \<^verbatim>\<open>dir_reopen\<close> and \<^verbatim>\<open>dir_close\<close>.
\<close>

definition dir_open :: "env \<Rightarrow> block_sector_t option \<Rightarrow> filesys \<Rightarrow> dir option \<times> filesys" where
  "dir_open ev ino fs =
     (case ino of
        Some i \<Rightarrow>
          if inode_isdir i fs \<and> calloc_ok ev
          then (Some \<lparr>inode = i, lock = inode_dir_lock i, pos = 2\<rparr>, fs)
          else (None, inode_close ino fs)
      | None \<Rightarrow> (None, inode_close ino fs))"

definition dir_open_root :: "env \<Rightarrow> filesys \<Rightarrow> dir option \<times> filesys" where
  "dir_open_root ev fs =
     (case inode_open ev ROOT_DIR_SECTOR fs of (ino, fs1) \<Rightarrow> dir_open ev ino fs1)"

definition dir_reopen :: "env \<Rightarrow> dir \<Rightarrow> filesys \<Rightarrow> dir option \<times> filesys" where
  "dir_reopen ev d fs =
     (case inode_reopen (inode d) fs of (ino, fs1) \<Rightarrow> dir_open ev ino fs1)"

definition dir_close :: "dir option \<Rightarrow> filesys \<Rightarrow> filesys" where
  "dir_close dp fs = (case dp of None \<Rightarrow> fs | Some d \<Rightarrow> inode_close (Some (inode d)) fs)"

text \<open>
  The loop that \<^verbatim>\<open>lookup\<close>, \<^verbatim>\<open>dir_add\<close>, \<^verbatim>\<open>dir_empty\<close> and \<^verbatim>\<open>dir_readdir\<close> share:
  \<^verbatim>\<open>for (ofs = ...; inode_read_at (inode, &e, sizeof e, ofs) == sizeof e; ofs += sizeof e)\<close>
  left at the first entry that satisfies the test of the loop body. The result
  is that entry (\<open>None\<close> when the read was short) and \<^verbatim>\<open>ofs\<close> after the loop.
\<close>

function scan_entries ::
  "(dir_entry \<Rightarrow> bool) \<Rightarrow> block_sector_t \<Rightarrow> nat \<Rightarrow> filesys \<Rightarrow> (dir_entry option \<times> nat) \<times> filesys" where
  "scan_entries stop i ofs fs =
     (case inode_read_at i ofs fs of
        (None, fs1) \<Rightarrow> ((None, ofs), fs1)
      | (Some e, fs1) \<Rightarrow>
          if stop e then ((Some e, ofs), fs1) else scan_entries stop i (Suc ofs) fs1)"
  by pat_completeness auto
termination
  by (relation "measure (\<lambda>(stop, i, ofs, fs). length (data (inodes fs i)) - ofs)")
     (auto simp: inode_read_at_def note_access_def split: if_splits)

text \<open>
  \<^verbatim>\<open>lookup\<close> (the entry and its offset when found) and \<^verbatim>\<open>dir_lookup\<close> (the
  boolean result and \<^verbatim>\<open>*inode\<close>).
\<close>

definition lookup :: "dir \<Rightarrow> string \<Rightarrow> filesys \<Rightarrow> (dir_entry \<times> nat) option \<times> filesys" where
  "lookup d nm fs =
     (case scan_entries (\<lambda>e. in_use e \<and> nm = name e) (inode d) 0 fs of
        ((None, ofs), fs1) \<Rightarrow> (None, fs1)
      | ((Some e, ofs), fs1) \<Rightarrow> (Some (e, ofs), fs1))"

definition dir_lookup ::
  "env \<Rightarrow> dir \<Rightarrow> string \<Rightarrow> filesys \<Rightarrow> bool \<times> block_sector_t option \<times> filesys" where
  "dir_lookup ev d nm fs =
     (case lookup d nm fs of
        (Some (e, ofs), fs1) \<Rightarrow>
          (case inode_open ev (inode_sector e) fs1 of (ino, fs2) \<Rightarrow> (ino \<noteq> None, ino, fs2))
      | (None, fs1) \<Rightarrow> (False, None, fs1))"

text \<open>
  \<^verbatim>\<open>strchr\<close>: the offset of the first occurrence of the character, \<open>None\<close> for
  \<^verbatim>\<open>NULL\<close>. A file path is the string before its terminating NUL.
\<close>

fun strchr :: "string \<Rightarrow> char \<Rightarrow> nat option" where
  "strchr [] c = None"
| "strchr (x # xs) c = (if x = c then Some 0 else map_option Suc (strchr xs c))"

text \<open>
  \<^verbatim>\<open>if (lock_held_by_current_thread (l)) lock_release (l);\<close>
\<close>

definition release_if_held :: "block_sector_t \<Rightarrow> filesys \<Rightarrow> filesys option" where
  "release_if_held l fs =
     (if lock_held_by_current_thread l fs then lock_release l fs else Some fs)"

text \<open>
  \<^verbatim>\<open>dir_open_dirs\<close>: the code after the label \<^verbatim>\<open>fail\<close>, the \<^verbatim>\<open>while\<close> loop (on the
  rest of the path, \<open>n\<close> being the offset of \<^verbatim>\<open>next_slash\<close>), and the function.
  \<open>cwd\<close> is \<^verbatim>\<open>thread_current ()->cwd\<close>.
\<close>

definition open_dirs_fail :: "dir option \<Rightarrow> filesys \<Rightarrow> (dir option \<times> filesys) option" where
  "open_dirs_fail parent_dir fs =
     (case (case parent_dir of None \<Rightarrow> Some fs | Some d \<Rightarrow> release_if_held (lock d) fs) of
        None \<Rightarrow> None
      | Some fs1 \<Rightarrow> Some (None, dir_close parent_dir fs1))"

function open_dirs_loop ::
  "env \<Rightarrow> dir \<Rightarrow> string \<Rightarrow> filesys \<Rightarrow> (dir option \<times> filesys) option" where
  "open_dirs_loop ev parent_dir filepath fs =
     (case strchr filepath CHR ''/'' of
        None \<Rightarrow> Some (Some parent_dir, fs)
      | Some n \<Rightarrow>
          if drop (Suc n) filepath = [] then open_dirs_fail (Some parent_dir) fs
          else if n = 0 then open_dirs_loop ev parent_dir (tl filepath) fs
          else if n > NAME_MAX then open_dirs_fail (Some parent_dir) fs
          else (case lock_acquire (lock parent_dir) fs of
                  None \<Rightarrow> None
                | Some fs1 \<Rightarrow>
                    (case dir_lookup ev parent_dir (take n filepath) fs1 of
                       (found, curr_inode, fs2) \<Rightarrow>
                         if \<not> found then open_dirs_fail (Some parent_dir) fs2
                         else (case lock_release (lock parent_dir) fs2 of
                                 None \<Rightarrow> None
                               | Some fs3 \<Rightarrow>
                                   (case dir_open ev curr_inode (dir_close (Some parent_dir) fs3) of
                                      (None, fs4) \<Rightarrow> open_dirs_fail None fs4
                                    | (Some d, fs4) \<Rightarrow>
                                        open_dirs_loop ev d (drop (Suc n) filepath) fs4)))))"
  by pat_completeness auto
termination
  by (relation "measure (\<lambda>(ev, parent_dir, filepath, fs). length filepath)")
     (auto simp: neq_Nil_conv)

definition dir_open_dirs :: "env \<Rightarrow> dir \<Rightarrow> string \<Rightarrow> filesys \<Rightarrow> (dir option \<times> filesys) option" where
  "dir_open_dirs ev cwd filepath fs =
     (case (if filepath \<noteq> [] \<and> hd filepath = CHR ''/''
            then (dir_open_root ev fs, tl filepath)
            else (dir_reopen ev cwd fs, filepath)) of
        ((None, fs1), rest) \<Rightarrow> open_dirs_fail None fs1
      | ((Some d, fs1), rest) \<Rightarrow> open_dirs_loop ev d rest fs1)"

text \<open>
  \<^verbatim>\<open>dir_add\<close>, with the code after its label \<^verbatim>\<open>done\<close>. \<^verbatim>\<open>strlcpy\<close> into the
  \<^verbatim>\<open>name\<close> array keeps at most \<^verbatim>\<open>NAME_MAX\<close> characters.
\<close>

definition dir_add_done :: "dir \<Rightarrow> bool \<Rightarrow> filesys \<Rightarrow> (bool \<times> filesys) option" where
  "dir_add_done d success fs =
     (case release_if_held (lock d) fs of None \<Rightarrow> None | Some fs1 \<Rightarrow> Some (success, fs1))"

definition dir_add ::
  "env \<Rightarrow> dir \<Rightarrow> string \<Rightarrow> block_sector_t \<Rightarrow> filesys \<Rightarrow> (bool \<times> filesys) option" where
  "dir_add ev d nm sector fs =
     (if nm = [] \<or> length nm > NAME_MAX then Some (False, fs)
      else (case lock_acquire (lock d) fs of
              None \<Rightarrow> None
            | Some fs1 \<Rightarrow>
                (case lookup d nm fs1 of
                   (Some found, fs2) \<Rightarrow> dir_add_done d False fs2
                 | (None, fs2) \<Rightarrow>
                     (case scan_entries (\<lambda>e. \<not> in_use e) (inode d) 0 fs2 of
                        ((slot, ofs), fs3) \<Rightarrow>
                          (case inode_write_at ev (inode d)
                                  \<lparr>inode_sector = sector, name = take NAME_MAX nm, in_use = True\<rparr>
                                  ofs fs3 of
                             (success, fs4) \<Rightarrow> dir_add_done d success fs4)))))"

text \<open>
  \<^verbatim>\<open>dir_empty\<close>.
\<close>

definition dir_empty :: "dir \<Rightarrow> filesys \<Rightarrow> (bool \<times> filesys) option" where
  "dir_empty d fs =
     (case lock_acquire (lock d) fs of
        None \<Rightarrow> None
      | Some fs1 \<Rightarrow>
          (case scan_entries (\<lambda>e. in_use e \<and> ''.'' \<noteq> name e \<and> ''..'' \<noteq> name e) (inode d) 0 fs1 of
             ((Some e, ofs), fs2) \<Rightarrow>
               (case lock_release (lock d) fs2 of None \<Rightarrow> None | Some fs3 \<Rightarrow> Some (False, fs3))
           | ((None, ofs), fs2) \<Rightarrow>
               (case lock_release (lock d) fs2 of None \<Rightarrow> None | Some fs3 \<Rightarrow> Some (True, fs3))))"

text \<open>
  \<^verbatim>\<open>dir_remove\<close>: the code after its label \<^verbatim>\<open>done\<close>, the part from
  \<^verbatim>\<open>e.in_use = false\<close> on, and the function.
\<close>

definition dir_remove_done ::
  "dir \<Rightarrow> dir option \<Rightarrow> block_sector_t option \<Rightarrow> bool \<Rightarrow> filesys \<Rightarrow> (bool \<times> filesys) option" where
  "dir_remove_done d dir_removed ino success fs =
     (case release_if_held (lock d) fs of
        None \<Rightarrow> None
      | Some fs1 \<Rightarrow>
          Some (success,
                if dir_removed \<noteq> None then dir_close dir_removed fs1
                else if ino \<noteq> None then inode_close ino fs1
                else fs1))"

definition dir_remove_erase ::
  "env \<Rightarrow> dir \<Rightarrow> dir_entry \<Rightarrow> nat \<Rightarrow> dir option \<Rightarrow> block_sector_t \<Rightarrow> filesys \<Rightarrow> (bool \<times> filesys) option" where
  "dir_remove_erase ev d e ofs dir_removed i fs =
     (case inode_write_at ev (inode d) (e\<lparr>in_use := False\<rparr>) ofs fs of
        (written, fs1) \<Rightarrow>
          if \<not> written then dir_remove_done d dir_removed (Some i) False fs1
          else dir_remove_done d dir_removed (Some i) True (inode_remove i fs1))"

definition dir_remove :: "env \<Rightarrow> dir \<Rightarrow> string \<Rightarrow> filesys \<Rightarrow> (bool \<times> filesys) option" where
  "dir_remove ev d nm fs =
     (case lock_acquire (lock d) fs of
        None \<Rightarrow> None
      | Some fs1 \<Rightarrow>
          (case lookup d nm fs1 of
             (None, fs2) \<Rightarrow> dir_remove_done d None None False fs2
           | (Some (e, ofs), fs2) \<Rightarrow>
               (case inode_open ev (inode_sector e) fs2 of
                  (None, fs3) \<Rightarrow> dir_remove_done d None None False fs3
                | (Some i, fs3) \<Rightarrow>
                    if inode_isdir i fs3
                    then (case dir_open ev (Some i) fs3 of
                            (None, fs4) \<Rightarrow> dir_remove_done d None (Some i) False fs4
                          | (Some dir_removed, fs4) \<Rightarrow>
                              if inode_open_count i fs4 > 1
                              then dir_remove_done d (Some dir_removed) (Some i) False fs4
                              else (case dir_empty dir_removed fs4 of
                                      None \<Rightarrow> None
                                    | Some (is_empty, fs5) \<Rightarrow>
                                        if \<not> is_empty
                                        then dir_remove_done d (Some dir_removed) (Some i) False fs5
                                        else dir_remove_erase ev d e ofs (Some dir_removed) i fs5))
                    else dir_remove_erase ev d e ofs None i fs3)))"

text \<open>
  \<^verbatim>\<open>dir_readdir\<close>: the name when the result is true (\<open>None\<close> when it is false) and
  the directory with its new \<^verbatim>\<open>pos\<close>.
\<close>

definition dir_readdir :: "dir \<Rightarrow> filesys \<Rightarrow> (string option \<times> dir \<times> filesys) option" where
  "dir_readdir d fs =
     (case lock_acquire (lock d) fs of
        None \<Rightarrow> None
      | Some fs1 \<Rightarrow>
          (case scan_entries in_use (inode d) (pos d) fs1 of
             ((Some e, ofs), fs2) \<Rightarrow>
               (case lock_release (lock d) fs2 of
                  None \<Rightarrow> None
                | Some fs3 \<Rightarrow> Some (Some (take NAME_MAX (name e)), d\<lparr>pos := Suc ofs\<rparr>, fs3))
           | ((None, ofs), fs2) \<Rightarrow>
               (case lock_release (lock d) fs2 of
                  None \<Rightarrow> None
                | Some fs3 \<Rightarrow> Some (None, d\<lparr>pos := ofs\<rparr>, fs3))))"

subsection \<open>Notions used to state the properties\<close>

text \<open>
  The first entry of a list of slots that satisfies a test, with its offset
  (counted from \<open>k\<close>); without such an entry, \<open>None\<close> and the offset after the
  last slot.
\<close>

fun first_from :: "(dir_entry \<Rightarrow> bool) \<Rightarrow> dir_entry list \<Rightarrow> nat \<Rightarrow> dir_entry option \<times> nat" where
  "first_from stop [] k = (None, k)"
| "first_from stop (e # es) k = (if stop e then (Some e, k) else first_from stop es (Suc k))"

text \<open>
  An in-use entry with the given name, and an in-use entry that is neither
  \<^verbatim>\<open>.\<close> nor \<^verbatim>\<open>..\<close>.
\<close>

definition named :: "string \<Rightarrow> dir_entry \<Rightarrow> bool" where
  "named nm e \<longleftrightarrow> in_use e \<and> nm = name e"

definition other_entry :: "dir_entry \<Rightarrow> bool" where
  "other_entry e \<longleftrightarrow> in_use e \<and> ''.'' \<noteq> name e \<and> ''..'' \<noteq> name e"

text \<open>
  The log of a thread that takes the given locks one after the other and
  releases each before it takes the next.
\<close>

definition one_by_one :: "block_sector_t list \<Rightarrow> lock_event list" where
  "one_by_one ls = concat (map (\<lambda>l. [Acquire l, Release l]) ls)"

text \<open>
  A small file system for the concrete cases. The root directory (sector 1,
  open once) holds the directory \<^verbatim>\<open>a\<close> (sector 5, with a file \<^verbatim>\<open>b\<close> in sector 6),
  the file \<^verbatim>\<open>f\<close> (sector 7, open twice) and the empty directory \<^verbatim>\<open>e\<close> (sector
  8). \<open>all_ok\<close> is a call during which nothing fails.
\<close>

definition all_ok :: env where
  "all_ok = \<lparr>open_ok = (\<lambda>sector. True), calloc_ok = True, write_ok = True\<rparr>"

definition blank_inode :: inode where
  "blank_inode = \<lparr>data = [], isdir = False, open_cnt = 0, removed = False\<rparr>"

definition dots :: "block_sector_t \<Rightarrow> block_sector_t \<Rightarrow> dir_entry list" where
  "dots self parent =
     [\<lparr>inode_sector = self, name = ''.'', in_use = True\<rparr>,
      \<lparr>inode_sector = parent, name = ''..'', in_use = True\<rparr>]"

definition root_dir :: dir where
  "root_dir = \<lparr>inode = 1, lock = 1, pos = 2\<rparr>"

definition example_fs :: filesys where
  "example_fs =
     \<lparr>inodes = (\<lambda>sector. blank_inode)
        (1 := \<lparr>data = dots 1 1 @
                      [\<lparr>inode_sector = 5, name = ''a'', in_use = True\<rparr>,
                       \<lparr>inode_sector = 7, name = ''f'', in_use = True\<rparr>,
                       \<lparr>inode_sector = 8, name = ''e'', in_use = True\<rparr>],
               isdir = True, open_cnt = 1, removed = False\<rparr>,
         5 := \<lparr>data = dots 5 1 @ [\<lparr>inode_sector = 6, name = ''b'', in_use = True\<rparr>],
               isdir = True, open_cnt = 0, removed = False\<rparr>,
         7 := \<lparr>data = [], isdir = False, open_cnt = 2, removed = False\<rparr>,
         8 := \<lparr>data = dots 8 1, isdir = True, open_cnt = 0, removed = False\<rparr>),
      held = {}, unguarded = [], lock_log = []\<rparr>"

text \<open>
  The example after \<^verbatim>\<open>dir_add (root, "x", 42)\<close>, which has taken and released
  the lock of the root directory.
\<close>

definition example_fs_x :: filesys where
  "example_fs_x =
     example_fs\<lparr>inodes := (inodes example_fs)
       (1 := (inodes example_fs 1)
          \<lparr>data := data (inodes example_fs 1) @
                     [\<lparr>inode_sector = 42, name = ''x'', in_use = True\<rparr>]\<rparr>),
       lock_log := [Acquire 1, Release 1]\<rparr>"

section \<open>Properties of the frame table\<close>

subsection \<open>frame_evict\<close>

lemma frame_evict_cases:
  "frame_evict pe f s =
     (if \<not> table_locked s then Inl Panic
      else if pinned (frames s ! f) \<or> (\<exists>p. page (frames s ! f) = Some p \<and> \<not> pe p)
      then Inr (False, s)
      else if f \<in> set (free_frames s) \<or> f \<in> set (allocated_frames s) then Inr (True, evicted f s)
      else Inl Undefined)"
  by (auto simp: frame_evict_def list_remove_def evicted_def split: option.splits)

text \<open>
  C4: called, as it assumes, with \<^verbatim>\<open>frame_table_lock\<close> held, \<^verbatim>\<open>frame_evict\<close> returns
  false and leaves the whole state as it is when the frame is pinned, and when
  the frame has a page that \<^verbatim>\<open>page_evict\<close> refuses. On an allocated frame that is
  neither, it returns true, the frame's page is cleared and the frame is no
  longer in the allocated list; nothing else changes.
\<close>

theorem frame_evict_contract:
  assumes "table_locked s"
  shows "(pinned (frames s ! f) \<longrightarrow> frame_evict pe f s = Inr (False, s)) \<and>
   (\<forall>p. page (frames s ! f) = Some p \<and> \<not> pe p \<longrightarrow> frame_evict pe f s = Inr (False, s)) \<and>
   (f < length (frames s) \<and> f \<in> set (allocated_frames s) \<and> \<not> pinned (frames s ! f) \<and>
    (\<forall>p. page (frames s ! f) = Some p \<longrightarrow> pe p) \<longrightarrow>
      (\<exists>s'. frame_evict pe f s = Inr (True, s') \<and>
            page (frames s' ! f) = None \<and>
            allocated_frames s' = removeAll f (allocated_frames s) \<and>
            f \<notin> set (allocated_frames s') \<and>
            free_frames s' = removeAll f (free_frames s) \<and>
            table_locked s' \<and>
            pinned (frames s' ! f) = pinned (frames s ! f) \<and>
            kaddr (frames s' ! f) = kaddr (frames s ! f) \<and>
            (\<forall>g. g \<noteq> f \<longrightarrow> frames s' ! g = frames s ! g)))"
  using assms by (auto simp: frame_evict_cases evicted_def)

theorem frame_evict_contract_witness:
  "table_locked \<lparr>frames = [\<lparr>kaddr = 7, page = Some 3, pinned = True\<rparr>],
                 free_frames = [], allocated_frames = [0], table_locked = True\<rparr> \<and>
   frame_evict (\<lambda>p. True) 0
       \<lparr>frames = [\<lparr>kaddr = 7, page = Some 3, pinned = True\<rparr>],
        free_frames = [], allocated_frames = [0], table_locked = True\<rparr> =
     Inr (False, \<lparr>frames = [\<lparr>kaddr = 7, page = Some 3, pinned = True\<rparr>],
                  free_frames = [], allocated_frames = [0], table_locked = True\<rparr>) \<and>
   frame_evict (\<lambda>p. False) 0
       \<lparr>frames = [\<lparr>kaddr = 7, page = Some 3, pinned = False\<rparr>],
        free_frames = [], allocated_frames = [0], table_locked = True\<rparr> =
     Inr (False, \<lparr>frames = [\<lparr>kaddr = 7, page = Some 3, pinned = False\<rparr>],
                  free_frames = [], allocated_frames = [0], table_locked = True\<rparr>) \<and>
   frame_evict (\<lambda>p. True) 0
       \<lparr>frames = [\<lparr>kaddr = 7, page = Some 3, pinned = False\<rparr>],
        free_frames = [], allocated_frames = [0], table_locked = True\<rparr> =
     Inr (True, \<lparr>frames = [\<lparr>kaddr = 7, page = None, pinned = False\<rparr>],
                 free_frames = [], allocated_frames = [], table_locked = True\<rparr>)"
  using frame_evict_contract
          [of "\<lparr>frames = [\<lparr>kaddr = 7, page = Some 3, pinned = True\<rparr>],
                free_frames = [], allocated_frames = [0], table_locked = True\<rparr>" 0 "\<lambda>p. True"]
        frame_evict_contract
          [of "\<lparr>frames = [\<lparr>kaddr = 7, page = Some 3, pinned = False\<rparr>],
                free_frames = [], allocated_frames = [0], table_locked = True\<rparr>" 0 "\<lambda>p. False"]
        frame_evict_contract
          [of "\<lparr>frames = [\<lparr>kaddr = 7, page = Some 3, pinned = False\<rparr>],
                free_frames = [], allocated_frames = [0], table_locked = True\<rparr>" 0 "\<lambda>p. True"]
  by (auto simp: frame_evict_def list_remove_def)

subsection \<open>frame_alloc\<close>

lemma evict_succeeds_locked:
  "table_locked s \<Longrightarrow> evict_succeeds pe s f =
     (case frame_evict pe f s of Inl e \<Rightarrow> False | Inr (ok, s1) \<Rightarrow> ok)"
  by (simp add: evict_succeeds_def frame_evict_cases evicted_def)

lemma pick_loop_find:
  "table_locked s \<Longrightarrow> set es \<subseteq> set (allocated_frames s) \<Longrightarrow>
   pick_loop pe es s =
     (case find (evict_succeeds pe s) es of
        None \<Rightarrow> Inr (None, s)
      | Some f \<Rightarrow> Inr (Some f, evicted f s))"
proof (induction es)
  case Nil
  then show ?case by simp
next
  case (Cons f es)
  then show ?case
    by (auto simp: evict_succeeds_locked frame_evict_cases)
qed

lemma evict_succeeds_unlocked:
  "evict_succeeds pe (s\<lparr>table_locked := True\<rparr>) = evict_succeeds pe s"
  by (simp add: evict_succeeds_def fun_eq_iff)

lemma frame_alloc_free:
  "\<not> table_locked s \<Longrightarrow> free_frames s \<noteq> [] \<Longrightarrow>
   frame_alloc pe s =
     Inr (last (free_frames s),
          s\<lparr>free_frames := butlast (free_frames s),
            frames := (frames s)[last (free_frames s) := (frames s ! last (free_frames s))\<lparr>pinned := True\<rparr>],
            allocated_frames := allocated_frames s @ [last (free_frames s)],
            table_locked := False\<rparr>)"
  by (simp add: frame_alloc_def table_lock_acquire_def table_lock_release_def)

lemma frame_alloc_scan:
  "\<not> table_locked s \<Longrightarrow> free_frames s = [] \<Longrightarrow>
   frame_alloc pe s =
     (case find (evict_succeeds pe s) (allocated_frames s) of
        None \<Rightarrow> Inl Panic
      | Some f \<Rightarrow>
          Inr (f, s\<lparr>frames := (frames s)[f := (frames s ! f)\<lparr>page := None\<rparr>,
                                   f := ((frames s)[f := (frames s ! f)\<lparr>page := None\<rparr>] ! f)
                                          \<lparr>pinned := True\<rparr>],
                    free_frames := [],
                    allocated_frames := removeAll f (allocated_frames s) @ [f],
                    table_locked := False\<rparr>))"
  by (cases "allocated_frames s = []")
     (simp_all add: frame_alloc_def frame_pick_and_evict_def pick_loop_find evicted_def
        table_lock_acquire_def table_lock_release_def evict_succeeds_unlocked
        split: option.splits)

text \<open>
  C1: let a thread that does not hold \<^verbatim>\<open>frame_table_lock\<close> call \<^verbatim>\<open>frame_alloc\<close> on
  a table whose free frames have no page. The call either panics or returns a
  frame of the table that has no page, is pinned and is in the allocated list.
  When the free list is not empty it takes the frame at the back of the free
  list. When the free list is empty it returns the first frame of the
  allocated list, front to back, on which \<^verbatim>\<open>frame_evict\<close> succeeds, moved to the
  back of the allocated list; and it panics when there is none.
\<close>

theorem frame_alloc_contract:
  assumes "\<not> table_locked s" and "table_wf s"
  shows "(case frame_alloc pe s of
            Inl e \<Rightarrow> e = Panic
          | Inr (f, s') \<Rightarrow>
              f < length (frames s') \<and> page (frames s' ! f) = None \<and>
              pinned (frames s' ! f) \<and> f \<in> set (allocated_frames s')) \<and>
         (free_frames s \<noteq> [] \<longrightarrow>
            (\<exists>s'. frame_alloc pe s = Inr (last (free_frames s), s') \<and>
                  free_frames s' = butlast (free_frames s) \<and>
                  allocated_frames s' = allocated_frames s @ [last (free_frames s)])) \<and>
         (free_frames s = [] \<longrightarrow>
            (case find (evict_succeeds pe s) (allocated_frames s) of
               None \<Rightarrow> frame_alloc pe s = Inl Panic
             | Some f \<Rightarrow>
                 (\<exists>s'. frame_alloc pe s = Inr (f, s') \<and>
                       allocated_frames s' = removeAll f (allocated_frames s) @ [f])))"
proof (cases "free_frames s = []")
  case True
  show ?thesis
  proof (cases "find (evict_succeeds pe s) (allocated_frames s)")
    case None
    with True assms(1) show ?thesis by (simp add: frame_alloc_scan)
  next
    case (Some f)
    then have "f \<in> set (allocated_frames s)"
      by (auto simp: find_Some_iff)
    with assms(2) have "f < length (frames s)"
      by (simp add: table_wf_def)
    with True Some assms(1) show ?thesis
      by (simp add: frame_alloc_scan)
  qed
next
  case False
  then have "last (free_frames s) \<in> set (free_frames s)"
    by simp
  with assms(2) have "last (free_frames s) < length (frames s)"
    and "page (frames s ! last (free_frames s)) = None"
    by (simp_all add: table_wf_def)
  with False assms(1) show ?thesis
    by (simp add: frame_alloc_free)
qed

theorem frame_alloc_contract_witness:
  "\<not> table_locked \<lparr>frames = [\<lparr>kaddr = 7, page = None, pinned = False\<rparr>],
                   free_frames = [0], allocated_frames = [], table_locked = False\<rparr> \<and>
   table_wf \<lparr>frames = [\<lparr>kaddr = 7, page = None, pinned = False\<rparr>],
             free_frames = [0], allocated_frames = [], table_locked = False\<rparr> \<and>
   frame_alloc (\<lambda>p. True)
       \<lparr>frames = [\<lparr>kaddr = 7, page = None, pinned = False\<rparr>],
        free_frames = [0], allocated_frames = [], table_locked = False\<rparr> =
     Inr (0, \<lparr>frames = [\<lparr>kaddr = 7, page = None, pinned = True\<rparr>],
              free_frames = [], allocated_frames = [0], table_locked = False\<rparr>) \<and>
   table_wf \<lparr>frames = [\<lparr>kaddr = 7, page = Some 3, pinned = True\<rparr>,
                       \<lparr>kaddr = 8, page = Some 4, pinned = False\<rparr>],
             free_frames = [], allocated_frames = [0, 1], table_locked = False\<rparr> \<and>
   frame_alloc (\<lambda>p. True)
       \<lparr>frames = [\<lparr>kaddr = 7, page = Some 3, pinned = True\<rparr>,
                  \<lparr>kaddr = 8, page = Some 4, pinned = False\<rparr>],
        free_frames = [], allocated_frames = [0, 1], table_locked = False\<rparr> =
     Inr (1, \<lparr>frames = [\<lparr>kaddr = 7, page = Some 3, pinned = True\<rparr>,
                        \<lparr>kaddr = 8, page = None, pinned = True\<rparr>],
              free_frames = [], allocated_frames = [0, 1], table_locked = False\<rparr>) \<and>
   frame_alloc (\<lambda>p. False)
       \<lparr>frames = [\<lparr>kaddr = 7, page = Some 3, pinned = True\<rparr>,
                  \<lparr>kaddr = 8, page = Some 4, pinned = False\<rparr>],
        free_frames = [], allocated_frames = [0, 1], table_locked = False\<rparr> = Inl Panic"
  using frame_alloc_contract
          [of "\<lparr>frames = [\<lparr>kaddr = 7, page = None, pinned = False\<rparr>],
                free_frames = [0], allocated_frames = [], table_locked = False\<rparr>" "\<lambda>p. True"]
        frame_alloc_contract
          [of "\<lparr>frames = [\<lparr>kaddr = 7, page = Some 3, pinned = True\<rparr>,
                          \<lparr>kaddr = 8, page = Some 4, pinned = False\<rparr>],
                free_frames = [], allocated_frames = [0, 1], table_locked = False\<rparr>" "\<lambda>p. True"]
        frame_alloc_contract
          [of "\<lparr>frames = [\<lparr>kaddr = 7, page = Some 3, pinned = True\<rparr>,
                          \<lparr>kaddr = 8, page = Some 4, pinned = False\<rparr>],
                free_frames = [], allocated_frames = [0, 1], table_locked = False\<rparr>" "\<lambda>p. False"]
  by (simp add: table_wf_def frame_alloc_def frame_pick_and_evict_def frame_evict_def
      list_remove_def table_lock_acquire_def table_lock_release_def)

subsection \<open>The membership invariant\<close>

lemma nth_list_update_if:
  "(xs[i := x]) ! j = (if i = j \<and> i < length xs then x else xs ! j)"
  by (cases "i < length xs") (auto simp: list_update_beyond)

lemma table_inv_wf: "table_inv s \<Longrightarrow> table_wf s"
  unfolding table_wf_def table_inv_def by simp

lemma frame_init_loop_inv:
  "table_inv (s\<lparr>table_locked := False\<rparr>) \<Longrightarrow> frame_init_loop room pool s = Inr s' \<Longrightarrow>
   table_inv (s'\<lparr>table_locked := False\<rparr>) \<and> table_locked s' = table_locked s"
proof (induction room pool s rule: frame_init_loop.induct)
  case (1 room s)
  then show ?case by simp
next
  case (2 room upage pool s)
  from "2.prems" have r: "room \<noteq> 0"
    by (auto split: if_splits)
  let ?t = "s\<lparr>frames := frames s @ [\<lparr>kaddr = upage, page = None, pinned = False\<rparr>],
              free_frames := free_frames s @ [length (frames s)]\<rparr>"
  from "2.prems"(1) have "table_inv (?t\<lparr>table_locked := False\<rparr>)"
    unfolding table_inv_def
    by (auto simp: nth_append less_Suc_eq)
  with "2.IH" r "2.prems"(2) show ?case by simp
qed

lemma frame_init_inv:
  assumes "frame_init room pool = Inr s"
  shows "table_inv s"
proof -
  let ?s0 = "\<lparr>frames = [], free_frames = [], allocated_frames = [], table_locked = True\<rparr>"
  from assms obtain s1 where l: "frame_init_loop room pool ?s0 = Inr s1"
    and r: "table_lock_release s1 = Inr s"
    by (auto simp: frame_init_def split: sum.splits)
  have "table_inv (?s0\<lparr>table_locked := False\<rparr>)"
    by (simp add: table_inv_def)
  from frame_init_loop_inv[OF this l] r show ?thesis
    by (auto simp: table_lock_release_def split: if_splits)
qed

lemma frame_alloc_inv:
  assumes "table_inv s" and "frame_alloc pe s = Inr (f, s')"
  shows "table_inv s'"
proof (cases "free_frames s = []")
  case True
  from assms(1) have u: "\<not> table_locked s"
    by (simp add: table_inv_def)
  with True assms(2) obtain g where g: "find (evict_succeeds pe s) (allocated_frames s) = Some g"
    by (auto simp: frame_alloc_scan split: option.splits)
  then have "g \<in> set (allocated_frames s)"
    by (auto simp: find_Some_iff)
  with assms True g u show ?thesis
    unfolding table_inv_def
    by (auto simp: frame_alloc_scan nth_list_update_if distinct_removeAll split: if_splits)
next
  case False
  from assms(1) have u: "\<not> table_locked s"
    by (simp add: table_inv_def)
  from False obtain xs x where xs: "free_frames s = xs @ [x]"
    by (cases "free_frames s" rule: rev_cases) auto
  with assms u show ?thesis
    unfolding table_inv_def
    by (auto simp: frame_alloc_free nth_list_update_if split: if_splits)
qed

lemma frame_free_inv:
  assumes "table_inv s" and "f < length (frames s)" and "frame_free f s = Inr s'"
  shows "table_inv s'"
proof -
  from assms(1) have u: "\<not> table_locked s"
    by (simp add: table_inv_def)
  from assms(1,2) have "f \<in> set (free_frames s) \<or> f \<in> set (allocated_frames s)"
    unfolding table_inv_def by auto
  with assms(3) u
  have s': "s' = s\<lparr>frames := (frames s)[f := (frames s ! f)\<lparr>page := None, pinned := False\<rparr>],
                   free_frames := removeAll f (free_frames s) @ [f],
                   allocated_frames := removeAll f (allocated_frames s),
                   table_locked := False\<rparr>"
    by (auto simp: frame_free_def list_remove_def table_lock_acquire_def table_lock_release_def)
  from assms(1,2) show ?thesis
    unfolding table_inv_def s'
    by (auto simp: nth_list_update_if distinct_removeAll split: if_splits)
qed

lemma frame_pin_result:
  "\<not> table_locked s \<Longrightarrow>
   frame_pin f s =
     Inr (s\<lparr>frames := (frames s)[f := (frames s ! f)\<lparr>pinned := True\<rparr>], table_locked := False\<rparr>)"
  by (simp add: frame_pin_def table_lock_acquire_def table_lock_release_def)

lemma frame_unpin_result:
  "\<not> table_locked s \<Longrightarrow>
   frame_unpin f s =
     Inr (s\<lparr>frames := (frames s)[f := (frames s ! f)\<lparr>pinned := False\<rparr>], table_locked := False\<rparr>)"
  by (simp add: frame_unpin_def table_lock_acquire_def table_lock_release_def)

lemma frame_pin_inv:
  "table_inv s \<Longrightarrow> f \<in> set (allocated_frames s) \<Longrightarrow> frame_pin f s = Inr s' \<Longrightarrow> table_inv s'"
  unfolding table_inv_def
  by (auto simp: frame_pin_result nth_list_update_if split: if_splits)

lemma frame_unpin_inv: "table_inv s \<Longrightarrow> frame_unpin f s = Inr s' \<Longrightarrow> table_inv s'"
  unfolding table_inv_def
  by (auto simp: frame_unpin_result nth_list_update_if split: if_splits)

lemma install_inv:
  "table_inv s \<Longrightarrow> f \<in> set (allocated_frames s) \<Longrightarrow>
   table_inv (s\<lparr>frames := (frames s)[f := (frames s ! f)\<lparr>page := pg\<rparr>]\<rparr>)"
  unfolding table_inv_def
  by (auto simp: nth_list_update_if split: if_splits)

lemma frame_evict_unlocked: "\<not> table_locked s \<Longrightarrow> frame_evict pe f s = Inl Panic"
  by (simp add: frame_evict_def)

lemma reachable_table_inv: "reachable s \<Longrightarrow> table_inv s"
proof (induction rule: reachable.induct)
  case (by_init room pool s)
  then show ?case by (rule frame_init_inv)
next
  case (by_alloc s page_evict f s')
  then show ?case by (blast intro: frame_alloc_inv)
next
  case (by_free s f s')
  then show ?case by (blast intro: frame_free_inv)
next
  case (by_pin s f s')
  then show ?case by (blast intro: frame_pin_inv)
next
  case (by_unpin s f s')
  then show ?case by (blast intro: frame_unpin_inv)
next
  case (by_evict s f page_evict ok s')
  from by_evict.IH have "\<not> table_locked s"
    by (simp add: table_inv_def)
  with by_evict.hyps(3) show ?case
    by (simp add: frame_evict_unlocked)
next
  case (by_install s f pg)
  then show ?case by (simp add: install_inv)
qed

text \<open>
  C2, as amended: after \<^verbatim>\<open>frame_init\<close> and any sequence of calls of \<^verbatim>\<open>frame_alloc\<close>,
  \<^verbatim>\<open>frame_free\<close>, \<^verbatim>\<open>frame_unpin\<close>, \<^verbatim>\<open>frame_evict\<close> and \<^verbatim>\<open>frame_pin\<close> of allocated
  frames that return, every frame of the table is in the free list or in the
  allocated list and not in both, and a frame in the free list has no page and
  is not pinned. At such a point the thread does not hold \<^verbatim>\<open>frame_table_lock\<close>,
  so a direct call of \<^verbatim>\<open>frame_evict\<close>, on any frame, fails its assertion and
  does not return: the only evictions that complete are those of
  \<^verbatim>\<open>frame_alloc\<close>.
\<close>

theorem reachable_frame_inv:
  assumes "reachable s" and "f < length (frames s)"
  shows "frame_inv s f \<and> frame_evict page_evict g s = Inl Panic"
proof -
  from assms(1) have t: "table_inv s"
    by (rule reachable_table_inv)
  with assms(2) have "frame_inv s f"
    by (auto simp: table_inv_def frame_inv_def)
  moreover from t have "frame_evict page_evict g s = Inl Panic"
    by (simp add: table_inv_def frame_evict_unlocked)
  ultimately show ?thesis by simp
qed

theorem reachable_frame_inv_witness:
  "frame_init 2 [7, 8] =
     Inr \<lparr>frames = [\<lparr>kaddr = 7, page = None, pinned = False\<rparr>,
                     \<lparr>kaddr = 8, page = None, pinned = False\<rparr>],
          free_frames = [0, 1], allocated_frames = [], table_locked = False\<rparr> \<and>
   frame_alloc (\<lambda>p. True)
       \<lparr>frames = [\<lparr>kaddr = 7, page = None, pinned = False\<rparr>,
                  \<lparr>kaddr = 8, page = None, pinned = False\<rparr>],
        free_frames = [0, 1], allocated_frames = [], table_locked = False\<rparr> =
     Inr (1, \<lparr>frames = [\<lparr>kaddr = 7, page = None, pinned = False\<rparr>,
                        \<lparr>kaddr = 8, page = None, pinned = True\<rparr>],
              free_frames = [0], allocated_frames = [1], table_locked = False\<rparr>) \<and>
   frame_unpin 1
       \<lparr>frames = [\<lparr>kaddr = 7, page = None, pinned = False\<rparr>,
                  \<lparr>kaddr = 8, page = Some 3, pinned = True\<rparr>],
        free_frames = [0], allocated_frames = [1], table_locked = False\<rparr> =
     Inr \<lparr>frames = [\<lparr>kaddr = 7, page = None, pinned = False\<rparr>,
                     \<lparr>kaddr = 8, page = Some 3, pinned = False\<rparr>],
          free_frames = [0], allocated_frames = [1], table_locked = False\<rparr> \<and>
   frame_alloc (\<lambda>p. True)
       \<lparr>frames = [\<lparr>kaddr = 7, page = None, pinned = False\<rparr>,
                  \<lparr>kaddr = 8, page = Some 3, pinned = False\<rparr>],
        free_frames = [0], allocated_frames = [1], table_locked = False\<rparr> =
     Inr (0, \<lparr>frames = [\<lparr>kaddr = 7, page = None, pinned = True\<rparr>,
                        \<lparr>kaddr = 8, page = Some 3, pinned = False\<rparr>],
              free_frames = [], allocated_frames = [1, 0], table_locked = False\<rparr>) \<and>
   frame_alloc (\<lambda>p. True)
       \<lparr>frames = [\<lparr>kaddr = 7, page = None, pinned = True\<rparr>,
                  \<lparr>kaddr = 8, page = Some 3, pinned = False\<rparr>],
        free_frames = [], allocated_frames = [1, 0], table_locked = False\<rparr> =
     Inr (1, \<lparr>frames = [\<lparr>kaddr = 7, page = None, pinned = True\<rparr>,
                        \<lparr>kaddr = 8, page = None, pinned = True\<rparr>],
              free_frames = [], allocated_frames = [0, 1], table_locked = False\<rparr>) \<and>
   frame_free 0
       \<lparr>frames = [\<lparr>kaddr = 7, page = None, pinned = True\<rparr>,
                  \<lparr>kaddr = 8, page = None, pinned = True\<rparr>],
        free_frames = [], allocated_frames = [0, 1], table_locked = False\<rparr> =
     Inr \<lparr>frames = [\<lparr>kaddr = 7, page = None, pinned = False\<rparr>,
                     \<lparr>kaddr = 8, page = None, pinned = True\<rparr>],
          free_frames = [0], allocated_frames = [1], table_locked = False\<rparr> \<and>
   frame_pin 1
       \<lparr>frames = [\<lparr>kaddr = 7, page = None, pinned = False\<rparr>,
                  \<lparr>kaddr = 8, page = None, pinned = True\<rparr>],
        free_frames = [0], allocated_frames = [1], table_locked = False\<rparr> =
     Inr \<lparr>frames = [\<lparr>kaddr = 7, page = None, pinned = False\<rparr>,
                     \<lparr>kaddr = 8, page = None, pinned = True\<rparr>],
          free_frames = [0], allocated_frames = [1], table_locked = False\<rparr> \<and>
   reachable \<lparr>frames = [\<lparr>kaddr = 7, page = None, pinned = False\<rparr>,
                         \<lparr>kaddr = 8, page = None, pinned = True\<rparr>],
              free_frames = [0], allocated_frames = [1], table_locked = False\<rparr> \<and>
   frame_inv \<lparr>frames = [\<lparr>kaddr = 7, page = None, pinned = False\<rparr>,
                         \<lparr>kaddr = 8, page = None, pinned = True\<rparr>],
              free_frames = [0], allocated_frames = [1], table_locked = False\<rparr> 0 \<and>
   frame_inv \<lparr>frames = [\<lparr>kaddr = 7, page = None, pinned = False\<rparr>,
                         \<lparr>kaddr = 8, page = None, pinned = True\<rparr>],
              free_frames = [0], allocated_frames = [1], table_locked = False\<rparr> 1 \<and>
   frame_evict (\<lambda>p. True) 1
       \<lparr>frames = [\<lparr>kaddr = 7, page = None, pinned = False\<rparr>,
                  \<lparr>kaddr = 8, page = None, pinned = True\<rparr>],
        free_frames = [0], allocated_frames = [1], table_locked = False\<rparr> = Inl Panic"
proof -
  let ?f0 = "\<lparr>kaddr = 7, page = None, pinned = False\<rparr>"
  let ?s0 = "\<lparr>frames = [?f0, \<lparr>kaddr = 8, page = None, pinned = False\<rparr>],
              free_frames = [0, 1], allocated_frames = [], table_locked = False\<rparr>"
  let ?s1 = "\<lparr>frames = [?f0, \<lparr>kaddr = 8, page = None, pinned = True\<rparr>],
              free_frames = [0], allocated_frames = [1], table_locked = False\<rparr>"
  let ?s2 = "\<lparr>frames = [?f0, \<lparr>kaddr = 8, page = Some 3, pinned = True\<rparr>],
              free_frames = [0], allocated_frames = [1], table_locked = False\<rparr>"
  let ?s3 = "\<lparr>frames = [?f0, \<lparr>kaddr = 8, page = Some 3, pinned = False\<rparr>],
              free_frames = [0], allocated_frames = [1], table_locked = False\<rparr>"
  let ?s4 = "\<lparr>frames = [\<lparr>kaddr = 7, page = None, pinned = True\<rparr>,
                         \<lparr>kaddr = 8, page = Some 3, pinned = False\<rparr>],
              free_frames = [], allocated_frames = [1, 0], table_locked = False\<rparr>"
  let ?s5 = "\<lparr>frames = [\<lparr>kaddr = 7, page = None, pinned = True\<rparr>,
                         \<lparr>kaddr = 8, page = None, pinned = True\<rparr>],
              free_frames = [], allocated_frames = [0, 1], table_locked = False\<rparr>"
  let ?s6 = "\<lparr>frames = [?f0, \<lparr>kaddr = 8, page = None, pinned = True\<rparr>],
              free_frames = [0], allocated_frames = [1], table_locked = False\<rparr>"
  have i: "frame_init 2 [7, 8] = Inr ?s0"
    by (simp add: frame_init_def table_lock_release_def)
  have a1: "frame_alloc (\<lambda>p. True) ?s0 = Inr (1, ?s1)"
    by (simp add: frame_alloc_def table_lock_acquire_def table_lock_release_def)
  have u: "frame_unpin 1 ?s2 = Inr ?s3"
    by (simp add: frame_unpin_def table_lock_acquire_def table_lock_release_def)
  have a2: "frame_alloc (\<lambda>p. True) ?s3 = Inr (0, ?s4)"
    by (simp add: frame_alloc_def table_lock_acquire_def table_lock_release_def)
  have a3: "frame_alloc (\<lambda>p. True) ?s4 = Inr (1, ?s5)"
    by (simp add: frame_alloc_def frame_pick_and_evict_def frame_evict_def list_remove_def
        table_lock_acquire_def table_lock_release_def)
  have fr: "frame_free 0 ?s5 = Inr ?s6"
    by (simp add: frame_free_def list_remove_def table_lock_acquire_def table_lock_release_def)
  have p: "frame_pin 1 ?s6 = Inr ?s6"
    by (simp add: frame_pin_def table_lock_acquire_def table_lock_release_def)
  from i have "reachable ?s0"
    by (rule by_init)
  from by_alloc[OF this a1] have r1: "reachable ?s1" .
  have "reachable (?s1\<lparr>frames := (frames ?s1)[1 := (frames ?s1 ! 1)\<lparr>page := Some 3\<rparr>]\<rparr>)"
    by (rule by_install[OF r1]) simp
  then have "reachable ?s2"
    by simp
  from by_unpin[OF this _ u] have "reachable ?s3"
    by simp
  from by_alloc[OF this a2] have "reachable ?s4" .
  from by_alloc[OF this a3] have "reachable ?s5" .
  from by_free[OF this _ fr] have "reachable ?s6"
    by simp
  from by_pin[OF this _ p] have r: "reachable ?s6"
    by simp
  have l0: "(0::nat) < length (frames ?s6)" and l1: "(1::nat) < length (frames ?s6)"
    by simp_all
  from reachable_frame_inv[OF r l0, of "\<lambda>p. True" 1] reachable_frame_inv[OF r l1, of "\<lambda>p. True" 1]
  have "frame_inv ?s6 0" and "frame_inv ?s6 1" and "frame_evict (\<lambda>p. True) 1 ?s6 = Inl Panic"
    by simp_all
  with i a1 u a2 a3 fr p r show ?thesis
    by simp
qed

text \<open>
  C2, as stated, fails for \<^verbatim>\<open>frame_pin\<close>, which sets the flag of any frame it is
  given: \<^verbatim>\<open>frame_pin\<close> of the free frame right after \<^verbatim>\<open>frame_init\<close> on a pool
  of one page returns and leaves a pinned frame in the free list.
\<close>

theorem pin_free_frame_counterexample:
  "frame_init 1 [7] =
     Inr \<lparr>frames = [\<lparr>kaddr = 7, page = None, pinned = False\<rparr>],
          free_frames = [0], allocated_frames = [], table_locked = False\<rparr> \<and>
   frame_pin 0 \<lparr>frames = [\<lparr>kaddr = 7, page = None, pinned = False\<rparr>],
                free_frames = [0], allocated_frames = [], table_locked = False\<rparr> =
     Inr \<lparr>frames = [\<lparr>kaddr = 7, page = None, pinned = True\<rparr>],
          free_frames = [0], allocated_frames = [], table_locked = False\<rparr> \<and>
   \<not> frame_inv \<lparr>frames = [\<lparr>kaddr = 7, page = None, pinned = True\<rparr>],
                free_frames = [0], allocated_frames = [], table_locked = False\<rparr> 0"
  by (simp add: frame_init_def frame_pin_def frame_inv_def table_lock_acquire_def
      table_lock_release_def)

subsection \<open>Pinning\<close>

text \<open>
  C9: for a frame \<open>f\<close> of the table, \<^verbatim>\<open>frame_pin (f); frame_pin (f); frame_unpin (f)\<close>,
  called by a thread that does not hold \<^verbatim>\<open>frame_table_lock\<close>, return and leave
  \<open>f\<close> unpinned: the flag is a boolean, not a count.
\<close>

theorem pin_pin_unpin_unpinned:
  assumes "\<not> table_locked s" and "f < length (frames s)"
  shows "\<exists>s1 s2 s3. frame_pin f s = Inr s1 \<and> frame_pin f s1 = Inr s2 \<and>
           frame_unpin f s2 = Inr s3 \<and> \<not> pinned (frames s3 ! f)"
  using assms by (simp add: frame_pin_result frame_unpin_result)

theorem pin_pin_unpin_unpinned_witness:
  "\<not> table_locked \<lparr>frames = [\<lparr>kaddr = 7, page = Some 3, pinned = False\<rparr>],
                   free_frames = [], allocated_frames = [0], table_locked = False\<rparr> \<and>
   (0::nat) < length (frames \<lparr>frames = [\<lparr>kaddr = 7, page = Some 3, pinned = False\<rparr>],
                              free_frames = [], allocated_frames = [0], table_locked = False\<rparr>) \<and>
   (\<exists>s1 s2 s3.
      frame_pin 0 \<lparr>frames = [\<lparr>kaddr = 7, page = Some 3, pinned = False\<rparr>],
                   free_frames = [], allocated_frames = [0], table_locked = False\<rparr> = Inr s1 \<and>
      frame_pin 0 s1 = Inr s2 \<and> frame_unpin 0 s2 = Inr s3 \<and> \<not> pinned (frames s3 ! 0))"
  using pin_pin_unpin_unpinned
          [of "\<lparr>frames = [\<lparr>kaddr = 7, page = Some 3, pinned = False\<rparr>],
                free_frames = [], allocated_frames = [0], table_locked = False\<rparr>" 0]
  by simp

section \<open>Properties of the directory layer\<close>

subsection \<open>The scan of the slots\<close>

declare scan_entries.simps [simp del]
declare open_dirs_loop.simps [simp del]

lemma note_access_fields [simp]:
  "inodes (note_access i fs) = inodes fs"
  "held (note_access i fs) = held fs"
  "lock_log (note_access i fs) = lock_log fs"
  by (simp_all add: note_access_def)

lemma note_access_held [simp]: "i \<in> held fs \<Longrightarrow> note_access i fs = fs"
  by (simp add: note_access_def inode_dir_lock_def)

lemma note_access_unguarded:
  "unguarded (note_access i fs) = (if i \<in> held fs then unguarded fs else unguarded fs @ [i])"
  by (simp add: note_access_def inode_dir_lock_def)

lemma drop_nth_Cons:
  "ofs < length es \<Longrightarrow> drop ofs es = es ! ofs # drop (Suc ofs) es"
  by (simp add: Cons_nth_drop_Suc)

lemma scan_entries_fst:
  "fst (scan_entries stop i ofs fs) = first_from stop (drop ofs (data (inodes fs i))) ofs"
proof (induction stop i ofs fs rule: scan_entries.induct)
  case (1 stop i ofs fs)
  then show ?case
    by (subst scan_entries.simps) (simp add: inode_read_at_def drop_nth_Cons)
qed

lemma scan_entries_snd:
  "inodes (snd (scan_entries stop i ofs fs)) = inodes fs \<and>
   held (snd (scan_entries stop i ofs fs)) = held fs \<and>
   lock_log (snd (scan_entries stop i ofs fs)) = lock_log fs \<and>
   (i \<in> held fs \<longrightarrow> snd (scan_entries stop i ofs fs) = fs)"
proof (induction stop i ofs fs rule: scan_entries.induct)
  case (1 stop i ofs fs)
  then show ?case
    by (subst (1 2 3 4) scan_entries.simps) (simp add: inode_read_at_def)
qed

lemma scan_entries_guarded:
  "i \<in> held fs \<Longrightarrow>
   scan_entries stop i ofs fs = (first_from stop (drop ofs (data (inodes fs i))) ofs, fs)"
  using scan_entries_fst[of stop i ofs fs] scan_entries_snd[of stop i ofs fs]
  by (simp add: prod_eq_iff)

lemma first_from_shift:
  "first_from stop es k = (fst (first_from stop es 0), k + snd (first_from stop es 0))"
proof (induction es arbitrary: k)
  case Nil
  then show ?case by simp
next
  case (Cons x es)
  from Cons.IH[of "Suc k"] Cons.IH[of "Suc 0"] show ?case by simp
qed

lemma first_from_Some:
  "first_from stop es 0 = (Some e, j) \<Longrightarrow>
   j < length es \<and> es ! j = e \<and> stop e \<and> (\<forall>m < j. \<not> stop (es ! m))"
proof (induction es arbitrary: j)
  case Nil
  then show ?case by simp
next
  case (Cons x es)
  show ?case
  proof (cases "stop x")
    case True
    with Cons.prems show ?thesis by auto
  next
    case False
    with Cons.prems have "first_from stop es (Suc 0) = (Some e, j)" by simp
    then obtain j' where j: "j = Suc j'" and "first_from stop es 0 = (Some e, j')"
      by (subst (asm) first_from_shift) (auto simp: prod_eq_iff)
    from Cons.IH[OF this(2)] False j show ?thesis
      by (auto simp: nth_Cons split: nat.splits)
  qed
qed

lemma first_from_None:
  "first_from stop es 0 = (None, j) \<Longrightarrow> j = length es \<and> (\<forall>e \<in> set es. \<not> stop e)"
proof (induction es arbitrary: j)
  case Nil
  then show ?case by simp
next
  case (Cons x es)
  then have nx: "\<not> stop x" by (auto split: if_splits)
  with Cons.prems have "first_from stop es (Suc 0) = (None, j)" by simp
  then obtain j' where j: "j = Suc j'" and "first_from stop es 0 = (None, j')"
    by (subst (asm) first_from_shift) (auto simp: prod_eq_iff)
  from Cons.IH[OF this(2)] nx j show ?case by simp
qed

lemma first_from_at:
  "j < length es \<Longrightarrow> stop (es ! j) \<Longrightarrow> \<forall>m < j. \<not> stop (es ! m) \<Longrightarrow>
   first_from stop es k = (Some (es ! j), k + j)"
proof (induction es arbitrary: k j)
  case Nil
  then show ?case by simp
next
  case (Cons x es)
  show ?case
  proof (cases j)
    case 0
    with Cons.prems show ?thesis by simp
  next
    case (Suc j')
    with Cons.prems have "\<not> stop x" by auto
    moreover from Suc Cons.prems have "first_from stop es (Suc k) = (Some (es ! j'), Suc k + j')"
      by (intro Cons.IH) auto
    ultimately show ?thesis using Suc by simp
  qed
qed

lemma first_from_none:
  "\<forall>e \<in> set es. \<not> stop e \<Longrightarrow> first_from stop es k = (None, k + length es)"
  by (induction es arbitrary: k) auto


subsection \<open>lookup, dir_empty, dir_add and dir_remove under the lock\<close>

lemma held_restore [simp]:
  "l \<notin> held fs \<Longrightarrow> fs\<lparr>held := insert l (held fs) - {l}, lock_log := ll\<rparr> = fs\<lparr>lock_log := ll\<rparr>"
  by simp

lemma lookup_guarded:
  "inode d \<in> held fs \<Longrightarrow>
   lookup d nm fs =
     (case first_from (named nm) (data (inodes fs (inode d))) 0 of
        (None, k) \<Rightarrow> None
      | (Some e, k) \<Rightarrow> Some (e, k), fs)"
  unfolding lookup_def named_def[abs_def]
  by (simp add: scan_entries_guarded split: prod.splits option.splits)

lemma lookup_any:
  "fst (lookup d nm fs) =
     (case first_from (named nm) (data (inodes fs (inode d))) 0 of
        (None, k) \<Rightarrow> None
      | (Some e, k) \<Rightarrow> Some (e, k))"
  "inodes (snd (lookup d nm fs)) = inodes fs"
  "held (snd (lookup d nm fs)) = held fs"
  "lock_log (snd (lookup d nm fs)) = lock_log fs"
  unfolding lookup_def named_def[abs_def]
  using scan_entries_fst[of "\<lambda>e. in_use e \<and> nm = name e" "inode d" 0 fs]
        scan_entries_snd[of "\<lambda>e. in_use e \<and> nm = name e" "inode d" 0 fs]
  by (auto simp: prod_eq_iff split: prod.splits option.splits)

lemma dir_empty_result:
  "lock d = inode d \<Longrightarrow> inode d \<notin> held fs \<Longrightarrow>
   dir_empty d fs =
     Some (fst (first_from other_entry (data (inodes fs (inode d))) 0) = None,
           fs\<lparr>lock_log := lock_log fs @ [Acquire (inode d), Release (inode d)]\<rparr>)"
  unfolding dir_empty_def other_entry_def[abs_def]
  by (simp add: lock_acquire_def lock_release_def scan_entries_guarded
      split: prod.splits option.splits)

lemma dir_add_result:
  assumes "lock d = inode d" and "inode d \<notin> held fs"
  shows "dir_add ev d nm sector fs =
     Some (if nm = [] \<or> length nm > NAME_MAX then (False, fs)
           else if fst (first_from (named nm) (data (inodes fs (inode d))) 0) \<noteq> None
           then (False, fs\<lparr>lock_log := lock_log fs @ [Acquire (inode d), Release (inode d)]\<rparr>)
           else if write_ok ev
           then (True, fs\<lparr>inodes := (inodes fs)(inode d := (inodes fs (inode d))
                   \<lparr>data := put_entry (data (inodes fs (inode d)))
                              (snd (first_from (\<lambda>e. \<not> in_use e) (data (inodes fs (inode d))) 0))
                              \<lparr>inode_sector = sector, name = nm, in_use = True\<rparr>\<rparr>),
                   lock_log := lock_log fs @ [Acquire (inode d), Release (inode d)]\<rparr>)
           else (False, fs\<lparr>lock_log := lock_log fs @ [Acquire (inode d), Release (inode d)]\<rparr>))"
  using assms
  unfolding dir_add_def dir_add_done_def release_if_held_def lock_held_by_current_thread_def
  by (simp add: lock_acquire_def lock_release_def lookup_guarded scan_entries_guarded
      inode_write_at_def split: prod.splits option.splits)


lemmas dir_remove_defs =
  dir_remove_def dir_remove_done_def dir_remove_erase_def release_if_held_def
  lock_held_by_current_thread_def lock_acquire_def lock_release_def
  inode_open_def inode_close_def inode_remove_def inode_isdir_def inode_open_count_def
  inode_write_at_def inode_dir_lock_def dir_open_def dir_close_def

lemma put_entry_in_range: "k < length es \<Longrightarrow> put_entry es k e = es[k := e]"
  by (simp add: put_entry_def)

lemma dir_remove_of_file:
  assumes "lock d = inode d" and "inode d \<notin> held fs"
    and "first_from (named nm) (data (inodes fs (inode d))) 0 = (Some e, k)"
    and "\<not> isdir (inodes fs (inode_sector e))"
    and "open_ok ev (inode_sector e)" and "write_ok ev"
  shows "\<exists>fs'. dir_remove ev d nm fs = Some (True, fs') \<and>
           data (inodes fs' (inode d)) = (data (inodes fs (inode d)))[k := e\<lparr>in_use := False\<rparr>] \<and>
           removed (inodes fs' (inode_sector e)) \<and>
           open_cnt (inodes fs' (inode_sector e)) = open_cnt (inodes fs (inode_sector e)) \<and>
           held fs' = held fs \<and> unguarded fs' = unguarded fs \<and>
           lock_log fs' = lock_log fs @ [Acquire (inode d), Release (inode d)]"
proof -
  from first_from_Some[OF assms(3)] have k: "k < length (data (inodes fs (inode d)))"
    by simp
  with assms show ?thesis
    by (auto simp: dir_remove_defs lookup_guarded put_entry_in_range)
qed


lemma dir_remove_refuses:
  assumes "lock d = inode d" and "inode d \<notin> held fs"
    and "first_from (named nm) (data (inodes fs (inode d))) 0 = (Some e, k)"
    and "isdir (inodes fs (inode_sector e))"
    and "0 < open_cnt (inodes fs (inode_sector e)) \<or>
         (inode_sector e \<noteq> inode d \<and> inode_sector e \<notin> held fs \<and>
          fst (first_from other_entry (data (inodes fs (inode_sector e))) 0) \<noteq> None)"
  shows "\<exists>fs'. dir_remove ev d nm fs = Some (False, fs') \<and>
           (\<forall>i. data (inodes fs' i) = data (inodes fs i) \<and>
                removed (inodes fs' i) = removed (inodes fs i)) \<and>
           held fs' = held fs \<and> unguarded fs' = unguarded fs"
  using assms
  by (auto simp: dir_remove_defs lookup_guarded dir_empty_result)

lemma dir_remove_of_directory:
  assumes "lock d = inode d" and "inode d \<notin> held fs"
    and "first_from (named nm) (data (inodes fs (inode d))) 0 = (Some e, k)"
    and "isdir (inodes fs (inode_sector e))"
    and "open_cnt (inodes fs (inode_sector e)) = 0"
    and "inode_sector e \<noteq> inode d" and "inode_sector e \<notin> held fs"
    and "fst (first_from other_entry (data (inodes fs (inode_sector e))) 0) = None"
    and "open_ok ev (inode_sector e)" and "calloc_ok ev" and "write_ok ev"
  shows "\<exists>fs'. dir_remove ev d nm fs = Some (True, fs') \<and>
           data (inodes fs' (inode d)) = (data (inodes fs (inode d)))[k := e\<lparr>in_use := False\<rparr>] \<and>
           removed (inodes fs' (inode_sector e)) \<and>
           held fs' = held fs \<and> unguarded fs' = unguarded fs \<and>
           lock_log fs' = lock_log fs @ [Acquire (inode d), Acquire (inode_sector e),
                                         Release (inode_sector e), Release (inode d)]"
proof -
  from first_from_Some[OF assms(3)] have k: "k < length (data (inodes fs (inode d)))"
    by simp
  with assms show ?thesis
    by (auto simp: dir_remove_defs lookup_guarded dir_empty_result put_entry_in_range)
qed

lemma dir_empty_cases:
  "lock d = inode d \<Longrightarrow>
   dir_empty d fs =
     (if inode d \<in> held fs then None
      else Some (fst (first_from other_entry (data (inodes fs (inode d))) 0) = None,
                 fs\<lparr>lock_log := lock_log fs @ [Acquire (inode d), Release (inode d)]\<rparr>))"
  by (simp add: dir_empty_result) (simp add: dir_empty_def lock_acquire_def)

lemma dir_remove_success:
  assumes "lock d = inode d" and "dir_remove ev d nm fs = Some (True, fs')"
  shows "\<exists>e k. first_from (named nm) (data (inodes fs (inode d))) 0 = (Some e, k) \<and>
           data (inodes fs' (inode d)) = (data (inodes fs (inode d)))[k := e\<lparr>in_use := False\<rparr>]"
proof -
  from assms(2) have h: "inode d \<notin> held fs"
    using assms(1) by (auto simp: dir_remove_def lock_acquire_def split: if_splits)
  obtain r k where r: "first_from (named nm) (data (inodes fs (inode d))) 0 = (r, k)"
    by (cases "first_from (named nm) (data (inodes fs (inode d))) 0")
  show ?thesis
  proof (cases r)
    case None
    with assms h r show ?thesis
      by (auto simp: dir_remove_defs lookup_guarded)
  next
    case (Some e)
    with r first_from_Some have k: "k < length (data (inodes fs (inode d)))"
      by blast
    have "data (inodes fs' (inode d)) = (data (inodes fs (inode d)))[k := e\<lparr>in_use := False\<rparr>]"
      using assms h r Some k
      by (auto simp: dir_remove_defs lookup_guarded dir_empty_cases put_entry_in_range
          split: if_splits option.splits prod.splits)
    with r Some show ?thesis by simp
  qed
qed


subsection \<open>Adding, looking up, removing\<close>

lemma dir_lookup_found:
  assumes "first_from (named nm) (data (inodes fs (inode d))) 0 = (Some e, k)"
    and "open_ok ev (inode_sector e)"
  shows "\<exists>fs'. dir_lookup ev d nm fs = (True, Some (inode_sector e), fs') \<and>
           open_cnt (inodes fs' (inode_sector e)) = open_cnt (inodes fs (inode_sector e)) + 1"
proof -
  obtain r fs1 where l: "lookup d nm fs = (r, fs1)"
    by (cases "lookup d nm fs")
  with lookup_any[of d nm fs] assms(1) have "r = Some (e, k)" and "inodes fs1 = inodes fs"
    by simp_all
  with l assms(2) show ?thesis
    by (simp add: dir_lookup_def inode_open_def)
qed

lemma dir_lookup_absent:
  assumes "fst (first_from (named nm) (data (inodes fs (inode d))) 0) = None"
  shows "fst (dir_lookup ev d nm fs) = False \<and> fst (snd (dir_lookup ev d nm fs)) = None"
proof -
  obtain r fs1 where l: "lookup d nm fs = (r, fs1)"
    by (cases "lookup d nm fs")
  with lookup_any(1)[of d nm fs] assms have "r = None"
    by (simp split: prod.splits option.splits)
  with l show ?thesis
    by (simp add: dir_lookup_def)
qed

lemma first_from_snd_le: "snd (first_from stop es 0) \<le> length es"
proof (cases "first_from stop es 0")
  case (Pair r j)
  then show ?thesis
    using first_from_Some[of stop es _ j] first_from_None[of stop es j]
    by (cases r) auto
qed

lemma first_from_absent_iff:
  "fst (first_from stop es 0) = None \<longleftrightarrow> (\<forall>e \<in> set es. \<not> stop e)"
proof
  assume "fst (first_from stop es 0) = None"
  then obtain j where "first_from stop es 0 = (None, j)"
    by (cases "first_from stop es 0") auto
  then show "\<forall>e \<in> set es. \<not> stop e"
    by (simp add: first_from_None)
next
  assume "\<forall>e \<in> set es. \<not> stop e"
  then show "fst (first_from stop es 0) = None"
    by (simp add: first_from_none)
qed

lemma put_entry_nth:
  "k \<le> length es \<Longrightarrow> put_entry es k e ! k = e \<and> k < length (put_entry es k e) \<and>
     (\<forall>m < k. put_entry es k e ! m = es ! m)"
  by (auto simp: put_entry_def nth_append)

lemma put_entry_erased:
  "k \<le> length es \<Longrightarrow> set ((put_entry es k e)[k := e']) \<subseteq> insert e' (set es)"
proof -
  assume k: "k \<le> length es"
  show ?thesis
  proof (cases "k < length es")
    case True
    then show ?thesis
      using set_update_subset_insert[of es k e']
      by (simp add: put_entry_def)
  next
    case False
    with k have "k = length es" by simp
    then show ?thesis
      by (auto simp: put_entry_def)
  qed
qed

lemma added_entry_first:
  assumes "\<forall>x \<in> set es. \<not> named nm x" and "k \<le> length es" and "named nm e"
  shows "first_from (named nm) (put_entry es k e) 0 = (Some e, k)"
proof -
  from put_entry_nth[OF assms(2), of e]
  have 1: "k < length (put_entry es k e)" and 2: "put_entry es k e ! k = e"
    and 3: "\<forall>m < k. put_entry es k e ! m = es ! m"
    by simp_all
  have "\<forall>m < k. \<not> named nm (put_entry es k e ! m)"
    using 3 assms(1,2) by (auto simp: all_set_conv_all_nth)
  from first_from_at[OF 1 _ this, of 0] 2 assms(3) show ?thesis
    by simp
qed

text \<open>
  C5: let \<^verbatim>\<open>dir_add (d, n, s)\<close> succeed (so \<open>n\<close> has 1 to \<^verbatim>\<open>NAME_MAX\<close> characters and
  was not in \<open>d\<close>). Then \<^verbatim>\<open>dir_lookup (d, n)\<close> returns true with the inode of
  sector \<open>s\<close>, opened once more, provided \<^verbatim>\<open>inode_open\<close> of \<open>s\<close> does not fail. And
  after a successful \<^verbatim>\<open>dir_remove (d, n)\<close>, from any state in which \<open>d\<close> has the
  slots the add left, \<^verbatim>\<open>dir_lookup (d, n)\<close> returns false with a null inode.
\<close>

theorem add_lookup_remove_roundtrip:
  assumes "lock d = inode_dir_lock (inode d)" and "dir_add ev d nm s fs = Some (True, fs1)"
  shows "(open_ok ev1 s \<longrightarrow>
            (\<exists>fs2. dir_lookup ev1 d nm fs1 = (True, Some s, fs2) \<and>
                   open_cnt (inodes fs2 s) = open_cnt (inodes fs1 s) + 1)) \<and>
         (\<forall>fsa fsb. data (inodes fsa (inode d)) = data (inodes fs1 (inode d)) \<and>
                    dir_remove ev2 d nm fsa = Some (True, fsb) \<longrightarrow>
                    fst (dir_lookup ev3 d nm fsb) = False \<and>
                    fst (snd (dir_lookup ev3 d nm fsb)) = None)"
proof -
  let ?es = "data (inodes fs (inode d))"
  let ?k = "snd (first_from (\<lambda>e. \<not> in_use e) ?es 0)"
  let ?e = "\<lparr>inode_sector = s, name = nm, in_use = True\<rparr>"
  from assms(1) have l: "lock d = inode d"
    by (simp add: inode_dir_lock_def)
  from l assms(2) have h: "inode d \<notin> held fs"
    by (auto simp: dir_add_def lock_acquire_def split: if_splits)
  from assms(2) dir_add_result[OF l h, of ev nm s]
  have absent: "fst (first_from (named nm) ?es 0) = None"
    and es1: "data (inodes fs1 (inode d)) = put_entry ?es ?k ?e"
    by (auto split: if_splits)
  from absent have no: "\<forall>x \<in> set ?es. \<not> named nm x"
    by (simp add: first_from_absent_iff)
  have k: "?k \<le> length ?es"
    by (rule first_from_snd_le)
  have ne: "named nm ?e"
    by (simp add: named_def)
  have found: "first_from (named nm) (data (inodes fs1 (inode d))) 0 = (Some ?e, ?k)"
    unfolding es1 by (rule added_entry_first[OF no k ne])
  have part1: "\<exists>fs2. dir_lookup ev1 d nm fs1 = (True, Some s, fs2) \<and>
                   open_cnt (inodes fs2 s) = open_cnt (inodes fs1 s) + 1" if "open_ok ev1 s"
    using dir_lookup_found[OF found, of ev1] that by simp
  have part2: "fst (dir_lookup ev3 d nm fsb) = False \<and> fst (snd (dir_lookup ev3 d nm fsb)) = None"
    if same: "data (inodes fsa (inode d)) = data (inodes fs1 (inode d))"
      and rm: "dir_remove ev2 d nm fsa = Some (True, fsb)" for fsa fsb
  proof -
    from dir_remove_success[OF l rm] found same
    have "data (inodes fsb (inode d)) = (put_entry ?es ?k ?e)[?k := ?e\<lparr>in_use := False\<rparr>]"
      by (simp add: es1)
    with put_entry_erased[OF k, of ?e "?e\<lparr>in_use := False\<rparr>"]
    have "set (data (inodes fsb (inode d))) \<subseteq> insert (?e\<lparr>in_use := False\<rparr>) (set ?es)"
      by simp
    moreover have "\<not> named nm (?e\<lparr>in_use := False\<rparr>)"
      by (simp add: named_def)
    ultimately have "\<forall>x \<in> set (data (inodes fsb (inode d))). \<not> named nm x"
      using no by blast
    then have "fst (first_from (named nm) (data (inodes fsb (inode d))) 0) = None"
      by (simp add: first_from_absent_iff)
    then show ?thesis
      by (rule dir_lookup_absent)
  qed
  from part1 part2 show ?thesis by blast
qed


theorem add_lookup_remove_roundtrip_witness:
  "lock root_dir = inode_dir_lock (inode root_dir) \<and>
   dir_add all_ok root_dir ''x'' 42 example_fs = Some (True, example_fs_x) \<and>
   (\<exists>fs2. dir_lookup all_ok root_dir ''x'' example_fs_x = (True, Some 42, fs2) \<and>
          open_cnt (inodes fs2 42) = open_cnt (inodes example_fs_x 42) + 1) \<and>
   (\<exists>fsb. dir_remove all_ok root_dir ''x'' example_fs_x = Some (True, fsb) \<and>
          fst (dir_lookup all_ok root_dir ''x'' fsb) = False \<and>
          fst (snd (dir_lookup all_ok root_dir ''x'' fsb)) = None)"
proof -
  have 0: "lock root_dir = inode_dir_lock (inode root_dir)"
    by (simp add: root_dir_def inode_dir_lock_def)
  have 1: "lock root_dir = inode root_dir" and 2: "inode root_dir \<notin> held example_fs"
    by (simp_all add: root_dir_def example_fs_def)
  have add: "dir_add all_ok root_dir ''x'' 42 example_fs = Some (True, example_fs_x)"
    by (simp add: dir_add_result[OF 1 2] NAME_MAX_def)
       (simp add: example_fs_x_def example_fs_def root_dir_def dots_def named_def all_ok_def
          put_entry_def)
  note rt = add_lookup_remove_roundtrip[OF 0 add, of all_ok all_ok all_ok]
  have ok: "open_ok all_ok 42"
    by (simp add: all_ok_def)
  with rt have look: "\<exists>fs2. dir_lookup all_ok root_dir ''x'' example_fs_x = (True, Some 42, fs2) \<and>
          open_cnt (inodes fs2 42) = open_cnt (inodes example_fs_x 42) + 1"
    by blast
  have 3: "inode root_dir \<notin> held example_fs_x"
    by (simp add: root_dir_def example_fs_x_def example_fs_def)
  have 4: "first_from (named ''x'') (data (inodes example_fs_x (inode root_dir))) 0 =
     (Some \<lparr>inode_sector = 42, name = ''x'', in_use = True\<rparr>, 5)"
    by (simp add: root_dir_def example_fs_x_def example_fs_def dots_def named_def)
  have 5: "\<not> isdir (inodes example_fs_x (inode_sector \<lparr>inode_sector = 42, name = ''x'', in_use = True\<rparr>))"
    by (simp add: example_fs_x_def example_fs_def blank_inode_def)
  have 6: "open_ok all_ok (inode_sector \<lparr>inode_sector = 42, name = ''x'', in_use = True\<rparr>)"
    and 7: "write_ok all_ok"
    by (simp_all add: all_ok_def)
  from dir_remove_of_file[OF 1 3 4 5 6 7]
  obtain fsb where rm: "dir_remove all_ok root_dir ''x'' example_fs_x = Some (True, fsb)"
    by blast
  with rt have "fst (dir_lookup all_ok root_dir ''x'' fsb) = False \<and>
      fst (snd (dir_lookup all_ok root_dir ''x'' fsb)) = None"
    by blast
  with rm have gone: "\<exists>fsb. dir_remove all_ok root_dir ''x'' example_fs_x = Some (True, fsb) \<and>
          fst (dir_lookup all_ok root_dir ''x'' fsb) = False \<and>
          fst (snd (dir_lookup all_ok root_dir ''x'' fsb)) = None"
    by blast
  from 0 add look gone show ?thesis
    by blast
qed

subsection \<open>Removing a file\<close>

text \<open>
  C10: let the first in-use entry named \<open>n\<close> of \<open>d\<close> refer to an inode that is not
  a directory and that opens. Then \<^verbatim>\<open>dir_remove (d, n)\<close> returns true whatever
  the open count of the inode is, provided the write of the entry is not
  short: the slot is written back with \<^verbatim>\<open>in_use\<close> false, the inode is marked for
  deletion, and its open count is what it was, so the other handles stay.
\<close>

theorem dir_remove_file_entry:
  assumes "lock d = inode_dir_lock (inode d)" and "inode d \<notin> held fs"
    and "first_from (named nm) (data (inodes fs (inode d))) 0 = (Some e, k)"
    and "\<not> isdir (inodes fs (inode_sector e))"
    and "open_ok ev (inode_sector e)" and "write_ok ev"
  shows "\<exists>fs'. dir_remove ev d nm fs = Some (True, fs') \<and>
           data (inodes fs' (inode d)) = (data (inodes fs (inode d)))[k := e\<lparr>in_use := False\<rparr>] \<and>
           removed (inodes fs' (inode_sector e)) \<and>
           open_cnt (inodes fs' (inode_sector e)) = open_cnt (inodes fs (inode_sector e))"
proof -
  from assms(1) have l: "lock d = inode d"
    by (simp add: inode_dir_lock_def)
  from dir_remove_of_file[OF l assms(2-6)] show ?thesis
    by blast
qed

theorem dir_remove_file_entry_witness:
  "lock root_dir = inode_dir_lock (inode root_dir) \<and> inode root_dir \<notin> held example_fs \<and>
   first_from (named ''f'') (data (inodes example_fs (inode root_dir))) 0 =
     (Some \<lparr>inode_sector = 7, name = ''f'', in_use = True\<rparr>, 3) \<and>
   \<not> isdir (inodes example_fs 7) \<and> open_cnt (inodes example_fs 7) = 2 \<and>
   (\<exists>fs'. dir_remove all_ok root_dir ''f'' example_fs = Some (True, fs') \<and>
          data (inodes fs' (inode root_dir)) =
            (data (inodes example_fs (inode root_dir)))
              [3 := \<lparr>inode_sector = 7, name = ''f'', in_use = False\<rparr>] \<and>
          removed (inodes fs' 7) \<and> open_cnt (inodes fs' 7) = 2)"
proof -
  have 1: "lock root_dir = inode_dir_lock (inode root_dir)"
    and 2: "inode root_dir \<notin> held example_fs"
    by (simp_all add: root_dir_def example_fs_def inode_dir_lock_def)
  have 3: "first_from (named ''f'') (data (inodes example_fs (inode root_dir))) 0 =
     (Some \<lparr>inode_sector = 7, name = ''f'', in_use = True\<rparr>, 3)"
    by (simp add: root_dir_def example_fs_def dots_def named_def)
  have 4: "\<not> isdir (inodes example_fs (inode_sector \<lparr>inode_sector = 7, name = ''f'', in_use = True\<rparr>))"
    by (simp add: example_fs_def)
  have 5: "open_ok all_ok (inode_sector \<lparr>inode_sector = 7, name = ''f'', in_use = True\<rparr>)"
    and 6: "write_ok all_ok"
    by (simp_all add: all_ok_def)
  from dir_remove_file_entry[OF 1 2 3 4 5 6] 1 2 3 show ?thesis
    by (simp add: example_fs_def)
qed


subsection \<open>Removing a directory\<close>

text \<open>
  C6: let the first in-use entry named \<open>n\<close> of the open directory \<open>d\<close> refer to a
  directory inode. Unless that inode's open count is exactly 1 once
  \<^verbatim>\<open>dir_remove\<close> has opened it and the directory has no in-use entry other than
  \<^verbatim>\<open>.\<close> and \<^verbatim>\<open>..\<close>, \<^verbatim>\<open>dir_remove (d, n)\<close> returns false, and no slot of any inode
  and no deletion mark has changed. When both hold and nothing fails during
  the call, it returns true, the slot is written back with \<^verbatim>\<open>in_use\<close> false and
  the inode is marked for deletion.
\<close>

theorem dir_remove_directory_entry:
  assumes "lock d = inode_dir_lock (inode d)" and "held fs = {}"
    and "1 \<le> open_cnt (inodes fs (inode d))"
    and "first_from (named nm) (data (inodes fs (inode d))) 0 = (Some e, k)"
    and "isdir (inodes fs (inode_sector e))"
    and "0 \<le> open_cnt (inodes fs (inode_sector e))"
  shows "(\<not> (open_cnt (inodes fs (inode_sector e)) + 1 = 1 \<and>
             (\<forall>x \<in> set (data (inodes fs (inode_sector e))).
                in_use x \<longrightarrow> name x = ''.'' \<or> name x = ''..'')) \<longrightarrow>
            (\<exists>fs'. dir_remove ev d nm fs = Some (False, fs') \<and>
                   (\<forall>i. data (inodes fs' i) = data (inodes fs i) \<and>
                        removed (inodes fs' i) = removed (inodes fs i)))) \<and>
         (open_cnt (inodes fs (inode_sector e)) + 1 = 1 \<and>
          (\<forall>x \<in> set (data (inodes fs (inode_sector e))).
             in_use x \<longrightarrow> name x = ''.'' \<or> name x = ''..'') \<and>
          open_ok ev (inode_sector e) \<and> calloc_ok ev \<and> write_ok ev \<longrightarrow>
            (\<exists>fs'. dir_remove ev d nm fs = Some (True, fs') \<and>
                   data (inodes fs' (inode d)) =
                     (data (inodes fs (inode d)))[k := e\<lparr>in_use := False\<rparr>] \<and>
                   removed (inodes fs' (inode_sector e))))"
proof -
  let ?c = "inode_sector e"
  have empty_iff: "(fst (first_from other_entry (data (inodes fs ?c)) 0) = None) =
      (\<forall>x \<in> set (data (inodes fs ?c)). in_use x \<longrightarrow> name x = ''.'' \<or> name x = ''..'')"
    by (auto simp: first_from_absent_iff other_entry_def)
  from assms(1) have l: "lock d = inode d"
    by (simp add: inode_dir_lock_def)
  from assms(2) have h: "inode d \<notin> held fs" and hc: "?c \<notin> held fs"
    by simp_all
  have ne: "?c \<noteq> inode d" if "open_cnt (inodes fs ?c) = 0"
    using that assms(3) by auto
  have refuse: "\<exists>fs'. dir_remove ev d nm fs = Some (False, fs') \<and>
                   (\<forall>i. data (inodes fs' i) = data (inodes fs i) \<and>
                        removed (inodes fs' i) = removed (inodes fs i))"
    if "\<not> (open_cnt (inodes fs ?c) + 1 = 1 \<and>
             (\<forall>x \<in> set (data (inodes fs ?c)). in_use x \<longrightarrow> name x = ''.'' \<or> name x = ''..''))"
  proof -
    from that assms(6) ne hc empty_iff
    have "0 < open_cnt (inodes fs ?c) \<or>
         (?c \<noteq> inode d \<and> ?c \<notin> held fs \<and>
          fst (first_from other_entry (data (inodes fs ?c)) 0) \<noteq> None)"
      by (cases "open_cnt (inodes fs ?c) = 0") auto
    from dir_remove_refuses[OF l h assms(4,5) this, of ev] show ?thesis
      by blast
  qed
  have accept: "\<exists>fs'. dir_remove ev d nm fs = Some (True, fs') \<and>
                   data (inodes fs' (inode d)) =
                     (data (inodes fs (inode d)))[k := e\<lparr>in_use := False\<rparr>] \<and>
                   removed (inodes fs' ?c)"
    if "open_cnt (inodes fs ?c) + 1 = 1"
      and "\<forall>x \<in> set (data (inodes fs ?c)). in_use x \<longrightarrow> name x = ''.'' \<or> name x = ''..''"
      and "open_ok ev ?c" and "calloc_ok ev" and "write_ok ev"
  proof -
    from that(1) have z: "open_cnt (inodes fs ?c) = 0" by simp
    from that(2) empty_iff have em: "fst (first_from other_entry (data (inodes fs ?c)) 0) = None"
      by simp
    from dir_remove_of_directory[OF l h assms(4,5) z ne[OF z] hc em that(3,4,5)]
    show ?thesis by blast
  qed
  from refuse accept show ?thesis by blast
qed

theorem dir_remove_directory_entry_witness:
  "lock root_dir = inode_dir_lock (inode root_dir) \<and> held example_fs = {} \<and>
   1 \<le> open_cnt (inodes example_fs (inode root_dir)) \<and>
   first_from (named ''a'') (data (inodes example_fs (inode root_dir))) 0 =
     (Some \<lparr>inode_sector = 5, name = ''a'', in_use = True\<rparr>, 2) \<and>
   isdir (inodes example_fs 5) \<and>
   (\<exists>fs'. dir_remove all_ok root_dir ''a'' example_fs = Some (False, fs') \<and>
          data (inodes fs' (inode root_dir)) = data (inodes example_fs (inode root_dir)) \<and>
          \<not> removed (inodes fs' 5)) \<and>
   first_from (named ''e'') (data (inodes example_fs (inode root_dir))) 0 =
     (Some \<lparr>inode_sector = 8, name = ''e'', in_use = True\<rparr>, 4) \<and>
   isdir (inodes example_fs 8) \<and> open_cnt (inodes example_fs 8) + 1 = 1 \<and>
   (\<exists>fs'. dir_remove all_ok root_dir ''e'' example_fs = Some (True, fs') \<and>
          data (inodes fs' (inode root_dir)) =
            (data (inodes example_fs (inode root_dir)))
              [4 := \<lparr>inode_sector = 8, name = ''e'', in_use = False\<rparr>] \<and>
          removed (inodes fs' 8))"
proof -
  have 1: "lock root_dir = inode_dir_lock (inode root_dir)" and 2: "held example_fs = {}"
    and 3: "1 \<le> open_cnt (inodes example_fs (inode root_dir))"
    by (simp_all add: root_dir_def example_fs_def inode_dir_lock_def)
  have a: "first_from (named ''a'') (data (inodes example_fs (inode root_dir))) 0 =
     (Some \<lparr>inode_sector = 5, name = ''a'', in_use = True\<rparr>, 2)"
    by (simp add: root_dir_def example_fs_def dots_def named_def)
  have a1: "isdir (inodes example_fs (inode_sector \<lparr>inode_sector = 5, name = ''a'', in_use = True\<rparr>))"
    and a2: "0 \<le> open_cnt (inodes example_fs (inode_sector \<lparr>inode_sector = 5, name = ''a'', in_use = True\<rparr>))"
    by (simp_all add: example_fs_def)
  have e: "first_from (named ''e'') (data (inodes example_fs (inode root_dir))) 0 =
     (Some \<lparr>inode_sector = 8, name = ''e'', in_use = True\<rparr>, 4)"
    by (simp add: root_dir_def example_fs_def dots_def named_def)
  have e1: "isdir (inodes example_fs (inode_sector \<lparr>inode_sector = 8, name = ''e'', in_use = True\<rparr>))"
    and e2: "0 \<le> open_cnt (inodes example_fs (inode_sector \<lparr>inode_sector = 8, name = ''e'', in_use = True\<rparr>))"
    by (simp_all add: example_fs_def)
  have ra: "\<exists>fs'. dir_remove all_ok root_dir ''a'' example_fs = Some (False, fs') \<and>
          data (inodes fs' (inode root_dir)) = data (inodes example_fs (inode root_dir)) \<and>
          \<not> removed (inodes fs' 5)"
  proof -
    have "\<not> (open_cnt (inodes example_fs 5) + 1 = 1 \<and>
            (\<forall>x \<in> set (data (inodes example_fs 5)). in_use x \<longrightarrow> name x = ''.'' \<or> name x = ''..''))"
      by (simp add: example_fs_def dots_def)
    with dir_remove_directory_entry[OF 1 2 3 a a1 a2, of all_ok]
    obtain fs' where "dir_remove all_ok root_dir ''a'' example_fs = Some (False, fs')"
      and "\<forall>i. data (inodes fs' i) = data (inodes example_fs i) \<and>
               removed (inodes fs' i) = removed (inodes example_fs i)"
      by auto
    moreover have "\<not> removed (inodes example_fs 5)"
      by (simp add: example_fs_def)
    ultimately show ?thesis by auto
  qed
  have e3: "open_cnt (inodes example_fs 8) + 1 = 1" and e4: "isdir (inodes example_fs 8)"
    by (simp_all add: example_fs_def)
  have re: "\<exists>fs'. dir_remove all_ok root_dir ''e'' example_fs = Some (True, fs') \<and>
          data (inodes fs' (inode root_dir)) =
            (data (inodes example_fs (inode root_dir)))
              [4 := \<lparr>inode_sector = 8, name = ''e'', in_use = False\<rparr>] \<and>
          removed (inodes fs' 8)"
  proof -
    have "\<forall>x \<in> set (data (inodes example_fs 8)). in_use x \<longrightarrow> name x = ''.'' \<or> name x = ''..''"
      by (simp add: example_fs_def dots_def)
    moreover have "open_ok all_ok 8 \<and> calloc_ok all_ok \<and> write_ok all_ok"
      by (simp add: all_ok_def)
    ultimately show ?thesis
      using dir_remove_directory_entry[OF 1 2 3 e e1 e2, of all_ok] e3 by simp
  qed
  have a3: "isdir (inodes example_fs 5)"
    by (simp add: example_fs_def)
  from 1 2 3 a a3 ra e e4 e3 re show ?thesis
    by blast
qed

subsection \<open>Path resolution\<close>

lemma strchr_None: "strchr s c = None \<longleftrightarrow> c \<notin> set s"
  by (induction s) auto

lemma strchr_Some:
  "strchr s c = Some n \<Longrightarrow> n < length s \<and> s ! n = c \<and> c \<notin> set (take n s)"
proof (induction s arbitrary: n)
  case Nil
  then show ?case by simp
next
  case (Cons x s)
  show ?case
  proof (cases "x = c")
    case True
    with Cons.prems show ?thesis by simp
  next
    case False
    with Cons.prems obtain m where m: "strchr s c = Some m" and n: "n = Suc m"
      by auto
    from Cons.IH[OF m] False n show ?thesis by simp
  qed
qed

lemma strchr_first: "c \<notin> set a \<Longrightarrow> strchr (a @ c # b) c = Some (length a)"
  by (induction a) auto

lemma strchr_prefix: "strchr a c = Some n \<Longrightarrow> strchr (a @ b) c = Some n"
  by (induction a arbitrary: n) (auto split: if_splits)

lemma one_by_one_simps [simp]:
  "one_by_one [] = []"
  "one_by_one (l # ls) = Acquire l # Release l # one_by_one ls"
  by (simp_all add: one_by_one_def)

lemma open_dirs_fail_result:
  "held fs = {} \<Longrightarrow>
   \<exists>fs'. open_dirs_fail dp fs = Some (None, fs') \<and> held fs' = {} \<and>
         unguarded fs' = unguarded fs \<and> lock_log fs' = lock_log fs"
  by (cases dp)
     (simp_all add: open_dirs_fail_def release_if_held_def lock_held_by_current_thread_def
        dir_close_def inode_close_def)

lemma open_dirs_fail_locked:
  "held fs = {lock d} \<Longrightarrow>
   \<exists>fs'. open_dirs_fail (Some d) fs = Some (None, fs') \<and> held fs' = {} \<and>
         unguarded fs' = unguarded fs \<and> lock_log fs' = lock_log fs @ [Release (lock d)]"
  by (simp add: open_dirs_fail_def release_if_held_def lock_held_by_current_thread_def
        lock_release_def dir_close_def inode_close_def)

lemma open_dirs_fail_no_dir: "open_dirs_fail dp fs \<noteq> Some (Some d', fs')"
  by (auto simp: open_dirs_fail_def split: option.splits)

lemma inode_open_state:
  "held (snd (inode_open ev sector fs)) = held fs \<and>
   unguarded (snd (inode_open ev sector fs)) = unguarded fs \<and>
   lock_log (snd (inode_open ev sector fs)) = lock_log fs"
  by (simp add: inode_open_def)

lemma dir_lookup_state:
  assumes "dir_lookup ev d nm fs = (found, ino, fs2)"
  shows "held fs2 = held fs \<and> lock_log fs2 = lock_log fs \<and>
         (inode d \<in> held fs \<longrightarrow> unguarded fs2 = unguarded fs)"
proof -
  obtain r fs1 where l: "lookup d nm fs = (r, fs1)"
    by (cases "lookup d nm fs")
  from lookup_any(3,4)[of d nm fs] l have h: "held fs1 = held fs" "lock_log fs1 = lock_log fs"
    by simp_all
  have u: "unguarded fs1 = unguarded fs" if "inode d \<in> held fs"
    using lookup_guarded[OF that, of nm] l by (simp split: prod.splits)
  show ?thesis
  proof (cases r)
    case None
    with assms l have "fs2 = fs1"
      by (simp add: dir_lookup_def)
    with h u show ?thesis by simp
  next
    case (Some a)
    obtain e k where a: "a = (e, k)" by (cases a)
    with Some assms l have "fs2 = snd (inode_open ev (inode_sector e) fs1)"
      by (simp add: dir_lookup_def split: prod.splits)
    with h u inode_open_state[of ev "inode_sector e" fs1] show ?thesis by simp
  qed
qed

lemma dir_open_state:
  assumes "dir_open ev ino fs = (dp, fs')"
  shows "held fs' = held fs \<and> unguarded fs' = unguarded fs \<and> lock_log fs' = lock_log fs \<and>
         (\<forall>d. dp = Some d \<longrightarrow> lock d = inode d)"
proof (cases ino)
  case None
  with assms show ?thesis
    by (simp add: dir_open_def inode_close_def)
next
  case (Some i)
  show ?thesis
  proof (cases "inode_isdir i fs \<and> calloc_ok ev")
    case True
    with Some assms have "fs' = fs" and "dp = Some \<lparr>inode = i, lock = inode_dir_lock i, pos = 2\<rparr>"
      by (simp_all add: dir_open_def)
    then show ?thesis by (auto simp: inode_dir_lock_def)
  next
    case False
    with Some assms have "fs' = inode_close (Some i) fs" and "dp = None"
      by (auto simp: dir_open_def)
    then show ?thesis by (simp add: inode_close_def)
  qed
qed

lemma open_dirs_loop_total:
  "held fs = {} \<Longrightarrow> lock d = inode d \<Longrightarrow>
   \<exists>r fs' ls. open_dirs_loop ev d p fs = Some (r, fs') \<and> held fs' = {} \<and>
           unguarded fs' = unguarded fs \<and> lock_log fs' = lock_log fs @ one_by_one ls"
proof (induction "length p" arbitrary: p d fs rule: less_induct)
  case less
  show ?case
  proof (cases "strchr p CHR ''/''")
    case None
    with less.prems have "open_dirs_loop ev d p fs = Some (Some d, fs) \<and> held fs = {} \<and>
        unguarded fs = unguarded fs \<and> lock_log fs = lock_log fs @ one_by_one []"
      by (simp add: open_dirs_loop.simps[of ev d p fs])
    then show ?thesis by blast
  next
    case (Some n)
    from strchr_Some[OF Some] have n: "n < length p" by simp
    then have ne: "p \<noteq> []" by auto
    have failing: ?thesis if "open_dirs_loop ev d p fs = open_dirs_fail (Some d) fs"
    proof -
      from open_dirs_fail_result[OF less.prems(1), of "Some d"] that
      obtain fs' where "open_dirs_loop ev d p fs = Some (None, fs') \<and> held fs' = {} \<and>
          unguarded fs' = unguarded fs \<and> lock_log fs' = lock_log fs @ one_by_one []"
        by auto
      then show ?thesis by blast
    qed
    consider (trail) "drop (Suc n) p = []"
      | (skip) "drop (Suc n) p \<noteq> []" "n = 0"
      | (long) "drop (Suc n) p \<noteq> []" "n \<noteq> 0" "NAME_MAX < n"
      | (step) "drop (Suc n) p \<noteq> []" "n \<noteq> 0" "\<not> NAME_MAX < n"
      by blast
    then show ?thesis
    proof cases
      case trail
      with Some have "open_dirs_loop ev d p fs = open_dirs_fail (Some d) fs"
        by (simp add: open_dirs_loop.simps[of ev d p fs])
      then show ?thesis by (rule failing)
    next
      case skip
      with Some have "open_dirs_loop ev d p fs = open_dirs_loop ev d (tl p) fs"
        by (simp add: open_dirs_loop.simps[of ev d p fs])
      moreover from ne have "length (tl p) < length p" by simp
      ultimately show ?thesis
        using less.hyps[OF _ less.prems, of "tl p"] by simp
    next
      case long
      with Some have "open_dirs_loop ev d p fs = open_dirs_fail (Some d) fs"
        by (simp add: open_dirs_loop.simps[of ev d p fs])
      then show ?thesis by (rule failing)
    next
      case step
      let ?fs1 = "fs\<lparr>held := insert (lock d) (held fs), lock_log := lock_log fs @ [Acquire (lock d)]\<rparr>"
      have acq: "lock_acquire (lock d) fs = Some ?fs1"
        using less.prems(1) by (simp add: lock_acquire_def)
      obtain found ino fs2 where lk: "dir_lookup ev d (take n p) ?fs1 = (found, ino, fs2)"
        by (cases "dir_lookup ev d (take n p) ?fs1") auto
      from dir_lookup_state[OF lk] less.prems
      have h2: "held fs2 = {lock d}" and u2: "unguarded fs2 = unguarded fs"
        and g2: "lock_log fs2 = lock_log fs @ [Acquire (lock d)]"
        by simp_all
      show ?thesis
      proof (cases found)
        case False
        with Some step acq lk
        have "open_dirs_loop ev d p fs = open_dirs_fail (Some d) fs2"
          by (simp add: open_dirs_loop.simps[of ev d p fs])
        with open_dirs_fail_locked[OF h2] u2 g2
        obtain fs' where "open_dirs_loop ev d p fs = Some (None, fs') \<and> held fs' = {} \<and>
            unguarded fs' = unguarded fs \<and> lock_log fs' = lock_log fs @ one_by_one [lock d]"
          by auto
        then show ?thesis by blast
      next
        case True
        let ?fs3 = "fs2\<lparr>held := held fs2 - {lock d}, lock_log := lock_log fs2 @ [Release (lock d)]\<rparr>"
        have rel: "lock_release (lock d) fs2 = Some ?fs3"
          using h2 by (simp add: lock_release_def)
        obtain dp fs4 where op: "dir_open ev ino (dir_close (Some d) ?fs3) = (dp, fs4)"
          by (cases "dir_open ev ino (dir_close (Some d) ?fs3)")
        from dir_open_state[OF op] h2 u2 g2
        have h4: "held fs4 = {}" and u4: "unguarded fs4 = unguarded fs"
          and g4: "lock_log fs4 = lock_log fs @ one_by_one [lock d]"
          and l4: "\<forall>d'. dp = Some d' \<longrightarrow> lock d' = inode d'"
          by (simp_all add: dir_close_def inode_close_def)
        show ?thesis
        proof (cases dp)
          case None
          with Some step acq lk True rel op
          have "open_dirs_loop ev d p fs = open_dirs_fail None fs4"
            by (simp add: open_dirs_loop.simps[of ev d p fs])
          with open_dirs_fail_result[OF h4, of None] u4 g4
          obtain fs' where "open_dirs_loop ev d p fs = Some (None, fs') \<and> held fs' = {} \<and>
              unguarded fs' = unguarded fs \<and> lock_log fs' = lock_log fs @ one_by_one [lock d]"
            by auto
          then show ?thesis by blast
        next
          case (Some d')
          with \<open>strchr p CHR ''/'' = Some n\<close> step acq lk True rel op
          have eq: "open_dirs_loop ev d p fs = open_dirs_loop ev d' (drop (Suc n) p) fs4"
            by (simp add: open_dirs_loop.simps[of ev d p fs])
          from n have "length (drop (Suc n) p) < length p" by simp
          moreover from l4 Some have "lock d' = inode d'" by simp
          ultimately obtain r fs' ls
            where "open_dirs_loop ev d' (drop (Suc n) p) fs4 = Some (r, fs')"
              and "held fs' = {}" and "unguarded fs' = unguarded fs4"
              and "lock_log fs' = lock_log fs4 @ one_by_one ls"
            using less.hyps[OF _ h4, of "drop (Suc n) p" d'] by blast
          with eq u4 g4
          have "open_dirs_loop ev d p fs = Some (r, fs') \<and> held fs' = {} \<and>
              unguarded fs' = unguarded fs \<and> lock_log fs' = lock_log fs @ one_by_one (lock d # ls)"
            by simp
          then show ?thesis by blast
        qed
      qed
    qed
  qed
qed

lemma open_dirs_loop_unfold:
  "(strchr p CHR ''/'' = None \<and> open_dirs_loop ev d p fs = Some (Some d, fs)) \<or>
   (\<forall>d' fs'. open_dirs_loop ev d p fs \<noteq> Some (Some d', fs')) \<or>
   (strchr p CHR ''/'' = Some 0 \<and> tl p \<noteq> [] \<and>
      open_dirs_loop ev d p fs = open_dirs_loop ev d (tl p) fs) \<or>
   (\<exists>n d1 fs1. strchr p CHR ''/'' = Some n \<and> 0 < n \<and> n \<le> NAME_MAX \<and>
      drop (Suc n) p \<noteq> [] \<and>
      open_dirs_loop ev d p fs = open_dirs_loop ev d1 (drop (Suc n) p) fs1)"
proof (cases "strchr p CHR ''/''")
  case None
  then show ?thesis
    by (simp add: open_dirs_loop.simps[of ev d p fs])
next
  case (Some n)
  consider (trail) "drop (Suc n) p = []"
    | (skip) "drop (Suc n) p \<noteq> []" "n = 0"
    | (long) "drop (Suc n) p \<noteq> []" "n \<noteq> 0" "NAME_MAX < n"
    | (step) "drop (Suc n) p \<noteq> []" "n \<noteq> 0" "\<not> NAME_MAX < n"
    by blast
  then show ?thesis
  proof cases
    case trail
    with Some have "open_dirs_loop ev d p fs = open_dirs_fail (Some d) fs"
      by (simp add: open_dirs_loop.simps[of ev d p fs])
    then show ?thesis
      by (simp add: open_dirs_fail_no_dir)
  next
    case skip
    with Some have "open_dirs_loop ev d p fs = open_dirs_loop ev d (tl p) fs"
      by (simp add: open_dirs_loop.simps[of ev d p fs])
    moreover from skip have "tl p \<noteq> []"
      by (simp add: drop_Suc)
    ultimately show ?thesis
      using Some skip by simp
  next
    case long
    with Some have "open_dirs_loop ev d p fs = open_dirs_fail (Some d) fs"
      by (simp add: open_dirs_loop.simps[of ev d p fs])
    then show ?thesis
      by (simp add: open_dirs_fail_no_dir)
  next
    case step
    show ?thesis
    proof (cases "lock_acquire (lock d) fs")
      case None
      with Some step have "open_dirs_loop ev d p fs = None"
        by (simp add: open_dirs_loop.simps[of ev d p fs])
      then show ?thesis by simp
    next
      case acq: (Some fs1)
      obtain found ino fs2 where lk: "dir_lookup ev d (take n p) fs1 = (found, ino, fs2)"
        by (cases "dir_lookup ev d (take n p) fs1") auto
      show ?thesis
      proof (cases found)
        case False
        with Some step acq lk
        have "open_dirs_loop ev d p fs = open_dirs_fail (Some d) fs2"
          by (simp add: open_dirs_loop.simps[of ev d p fs])
        then show ?thesis
          by (simp add: open_dirs_fail_no_dir)
      next
        case True
        show ?thesis
        proof (cases "lock_release (lock d) fs2")
          case None
          with Some step acq lk True have "open_dirs_loop ev d p fs = None"
            by (simp add: open_dirs_loop.simps[of ev d p fs])
          then show ?thesis by simp
        next
          case rel: (Some fs3)
          obtain dp fs4 where op: "dir_open ev ino (dir_close (Some d) fs3) = (dp, fs4)"
            by (cases "dir_open ev ino (dir_close (Some d) fs3)")
          show ?thesis
          proof (cases dp)
            case None
            with Some step acq lk True rel op
            have "open_dirs_loop ev d p fs = open_dirs_fail None fs4"
              by (simp add: open_dirs_loop.simps[of ev d p fs])
            then show ?thesis
              by (simp add: open_dirs_fail_no_dir)
          next
            case d1: (Some d1)
            with Some step acq lk True rel op
            have "open_dirs_loop ev d p fs = open_dirs_loop ev d1 (drop (Suc n) p) fs4"
              by (simp add: open_dirs_loop.simps[of ev d p fs])
            with Some step show ?thesis
              by auto
          qed
        qed
      qed
    qed
  qed
qed

lemma open_dirs_loop_trailing:
  "p \<noteq> [] \<Longrightarrow> last p = CHR ''/'' \<Longrightarrow> open_dirs_loop ev d p fs \<noteq> Some (Some d', fs')"
proof (induction "length p" arbitrary: p d fs rule: less_induct)
  case less
  from less.prems have sl: "CHR ''/'' \<in> set p"
    using last_in_set by fastforce
  from open_dirs_loop_unfold[of p ev d fs] show ?case
  proof (elim disjE conjE exE)
    assume "strchr p CHR ''/'' = None"
    with sl show ?thesis by (simp add: strchr_None)
  next
    assume "\<forall>d' fs'. open_dirs_loop ev d p fs \<noteq> Some (Some d', fs')"
    then show ?thesis by simp
  next
    assume t: "tl p \<noteq> []" and eq: "open_dirs_loop ev d p fs = open_dirs_loop ev d (tl p) fs"
    from less.prems t have "length (tl p) < length p" and "last (tl p) = CHR ''/''"
      by (simp_all add: last_tl)
    from less.hyps[OF this(1) t this(2)] eq show ?thesis by simp
  next
    fix n d1 fs1
    assume n: "strchr p CHR ''/'' = Some n" and r: "drop (Suc n) p \<noteq> []"
      and eq: "open_dirs_loop ev d p fs = open_dirs_loop ev d1 (drop (Suc n) p) fs1"
    from strchr_Some[OF n] have "n < length p" by simp
    then have "length (drop (Suc n) p) < length p" by simp
    moreover from r less.prems have "last (drop (Suc n) p) = CHR ''/''"
      by (simp add: last_drop)
    ultimately show ?thesis
      using less.hyps[OF _ r] eq by simp
  qed
qed

lemma open_dirs_loop_long:
  "p = pre @ cn @ CHR ''/'' # rest \<Longrightarrow> CHR ''/'' \<notin> set cn \<Longrightarrow> NAME_MAX < length cn \<Longrightarrow>
   pre = [] \<or> last pre = CHR ''/'' \<Longrightarrow>
   open_dirs_loop ev d p fs \<noteq> Some (Some d', fs')"
proof (induction "length p" arbitrary: p pre d fs rule: less_induct)
  case less
  note p = less.prems(1)
  from less.prems(3) have cne: "cn \<noteq> []" by auto
  from p have sl: "CHR ''/'' \<in> set p" by simp
  from open_dirs_loop_unfold[of p ev d fs] show ?case
  proof (elim disjE conjE exE)
    assume "strchr p CHR ''/'' = None"
    with sl show ?thesis by (simp add: strchr_None)
  next
    assume "\<forall>d' fs'. open_dirs_loop ev d p fs \<noteq> Some (Some d', fs')"
    then show ?thesis by simp
  next
    assume z: "strchr p CHR ''/'' = Some 0"
      and eq: "open_dirs_loop ev d p fs = open_dirs_loop ev d (tl p) fs"
    from strchr_Some[OF z] have h: "p ! 0 = CHR ''/''" by simp
    have "pre \<noteq> []"
    proof
      assume "pre = []"
      with p cne have "p ! 0 = hd cn" by (cases cn) auto
      with h cne less.prems(2) show False by (cases cn) auto
    qed
    then obtain pre' where pre: "pre = CHR ''/'' # pre'"
      using p h by (cases pre) auto
    with p have tl: "tl p = pre' @ cn @ CHR ''/'' # rest" by simp
    from pre less.prems(4) have "pre' = [] \<or> last pre' = CHR ''/''"
      by (auto split: if_splits)
    moreover from p pre have "length (tl p) < length p" by simp
    ultimately show ?thesis
      using less.hyps[OF _ tl less.prems(2,3)] eq by simp
  next
    fix n d1 fs1
    assume n: "strchr p CHR ''/'' = Some n" and n0: "0 < n" and nm: "n \<le> NAME_MAX"
      and eq: "open_dirs_loop ev d p fs = open_dirs_loop ev d1 (drop (Suc n) p) fs1"
    have "pre \<noteq> []"
    proof
      assume "pre = []"
      with p less.prems(2) have "strchr p CHR ''/'' = Some (length cn)"
        by (simp add: strchr_first)
      with n nm less.prems(3) show False by simp
    qed
    with less.prems(4) have lp: "last pre = CHR ''/''" by simp
    with \<open>pre \<noteq> []\<close> have "CHR ''/'' \<in> set pre"
      using last_in_set by fastforce
    then obtain m where m: "strchr pre CHR ''/'' = Some m"
      by (cases "strchr pre CHR ''/''") (auto simp: strchr_None)
    from strchr_prefix[OF m, of "cn @ CHR ''/'' # rest"] p n have nm': "n = m"
      by simp
    from strchr_Some[OF m] nm' have nl: "n < length pre" by simp
    with p have dr: "drop (Suc n) p = drop (Suc n) pre @ cn @ CHR ''/'' # rest"
      by simp
    from nl lp have "drop (Suc n) pre = [] \<or> last (drop (Suc n) pre) = CHR ''/''"
      by (cases "Suc n < length pre") (simp_all add: last_drop)
    moreover from strchr_Some[OF n] have "n < length p" by simp
    then have "length (drop (Suc n) p) < length p" by simp
    ultimately show ?thesis
      using less.hyps[OF _ dr less.prems(2,3)] eq by simp
  qed
qed

lemma open_dirs_loop_skip:
  "q \<noteq> [] \<Longrightarrow> open_dirs_loop ev d (CHR ''/'' # q) fs = open_dirs_loop ev d q fs"
  by (simp add: open_dirs_loop.simps[of ev d "CHR ''/'' # q" fs])

lemma open_dirs_loop_collapse:
  "q \<noteq> [] \<Longrightarrow>
   open_dirs_loop ev d (a @ CHR ''/'' # CHR ''/'' # q) fs =
   open_dirs_loop ev d (a @ CHR ''/'' # q) fs"
proof (induction "length a" arbitrary: a d fs rule: less_induct)
  case less
  let ?x = "a @ CHR ''/'' # CHR ''/'' # q" and ?y = "a @ CHR ''/'' # q"
  show ?case
  proof (cases "CHR ''/'' \<in> set a")
    case True
    then obtain n where n: "strchr a CHR ''/'' = Some n"
      by (cases "strchr a CHR ''/''") (auto simp: strchr_None)
    from strchr_Some[OF n] have nl: "n < length a" by simp
    then have ane: "a \<noteq> []" by auto
    have sx: "strchr ?x CHR ''/'' = Some n" and sy: "strchr ?y CHR ''/'' = Some n"
      using strchr_prefix[OF n] by simp_all
    from nl have dx: "drop (Suc n) ?x = drop (Suc n) a @ CHR ''/'' # CHR ''/'' # q"
      and dy: "drop (Suc n) ?y = drop (Suc n) a @ CHR ''/'' # q"
      and tx: "take n ?x = take n a" and ty: "take n ?y = take n a"
      by simp_all
    from ane have tlx: "tl ?x = tl a @ CHR ''/'' # CHR ''/'' # q"
      and tly: "tl ?y = tl a @ CHR ''/'' # q"
      by simp_all
    from nl have "length (drop (Suc n) a) < length a" by simp
    from less.hyps[OF this less.prems]
    have ih1: "open_dirs_loop ev d1 (drop (Suc n) a @ CHR ''/'' # CHR ''/'' # q) fs1 =
               open_dirs_loop ev d1 (drop (Suc n) a @ CHR ''/'' # q) fs1" for d1 fs1 .
    from ane have "length (tl a) < length a" by simp
    from less.hyps[OF this less.prems]
    have ih2: "open_dirs_loop ev d1 (tl a @ CHR ''/'' # CHR ''/'' # q) fs1 =
               open_dirs_loop ev d1 (tl a @ CHR ''/'' # q) fs1" for d1 fs1 .
    have "open_dirs_loop ev d ?x fs = open_dirs_loop ev d ?y fs"
      unfolding open_dirs_loop.simps[of ev d ?x fs] open_dirs_loop.simps[of ev d ?y fs]
        sx sy option.case dx dy tx ty tlx tly ih1 ih2
      by simp
    then show ?thesis .
  next
    case False
    show ?thesis
    proof (cases "a = []")
      case True
      with less.prems show ?thesis
        by (simp add: open_dirs_loop_skip)
    next
      case ane: False
      have sx: "strchr ?x CHR ''/'' = Some (length a)"
        and sy: "strchr ?y CHR ''/'' = Some (length a)"
        using False by (simp_all add: strchr_first)
      have dx: "drop (Suc (length a)) ?x = CHR ''/'' # q"
        and dy: "drop (Suc (length a)) ?y = q"
        and tx: "take (length a) ?x = a" and ty: "take (length a) ?y = a"
        by simp_all
      have sk: "open_dirs_loop ev d1 (CHR ''/'' # q) fs1 = open_dirs_loop ev d1 q fs1" for d1 fs1
        using less.prems by (rule open_dirs_loop_skip)
      have "open_dirs_loop ev d ?x fs = open_dirs_loop ev d ?y fs"
        unfolding open_dirs_loop.simps[of ev d ?x fs] open_dirs_loop.simps[of ev d ?y fs]
          sx sy option.case dx dy tx ty sk
        using ane less.prems by simp
      then show ?thesis .
    qed
  qed
qed

lemma open_dirs_start_state:
  "dir_open_root ev fs = (dp, fs1) \<or> dir_reopen ev cwd fs = (dp, fs1) \<Longrightarrow>
   held fs1 = held fs \<and> unguarded fs1 = unguarded fs \<and> lock_log fs1 = lock_log fs \<and>
   (\<forall>d. dp = Some d \<longrightarrow> lock d = inode d)"
proof (erule disjE)
  assume a: "dir_open_root ev fs = (dp, fs1)"
  obtain ino fs0 where o: "inode_open ev ROOT_DIR_SECTOR fs = (ino, fs0)"
    by (cases "inode_open ev ROOT_DIR_SECTOR fs")
  with a have "dir_open ev ino fs0 = (dp, fs1)"
    by (simp add: dir_open_root_def)
  from dir_open_state[OF this] inode_open_state[of ev ROOT_DIR_SECTOR fs] o show ?thesis
    by simp
next
  assume a: "dir_reopen ev cwd fs = (dp, fs1)"
  then have "dir_open ev (fst (inode_reopen (inode cwd) fs)) (snd (inode_reopen (inode cwd) fs)) =
      (dp, fs1)"
    by (simp add: dir_reopen_def split: prod.splits)
  from dir_open_state[OF this] show ?thesis
    by (simp add: inode_reopen_def)
qed

lemma dir_open_dirs_rejects:
  assumes "held fs = {}"
    and "\<And>d fs1 d' fs'. open_dirs_loop ev d
            (if filepath \<noteq> [] \<and> hd filepath = CHR ''/'' then tl filepath else filepath) fs1 \<noteq>
          Some (Some d', fs')"
  shows "\<exists>fs'. dir_open_dirs ev cwd filepath fs = Some (None, fs')"
proof -
  let ?abs = "filepath \<noteq> [] \<and> hd filepath = CHR ''/''"
  let ?rest = "if ?abs then tl filepath else filepath"
  obtain dp fs1 where st: "(if ?abs then dir_open_root ev fs else dir_reopen ev cwd fs) = (dp, fs1)"
    by (cases "if ?abs then dir_open_root ev fs else dir_reopen ev cwd fs")
  then have "dir_open_root ev fs = (dp, fs1) \<or> dir_reopen ev cwd fs = (dp, fs1)"
    by (auto split: if_splits)
  from open_dirs_start_state[OF this] assms(1)
  have h1: "held fs1 = {}" and l1: "\<forall>d. dp = Some d \<longrightarrow> lock d = inode d"
    by simp_all
  show ?thesis
  proof (cases dp)
    case None
    with st have "dir_open_dirs ev cwd filepath fs = open_dirs_fail None fs1"
      by (auto simp: dir_open_dirs_def split: if_splits)
    with open_dirs_fail_result[OF h1, of None] show ?thesis
      by auto
  next
    case (Some d)
    with st have eq: "dir_open_dirs ev cwd filepath fs = open_dirs_loop ev d ?rest fs1"
      by (auto simp: dir_open_dirs_def split: if_splits)
    from l1 Some have "lock d = inode d" by simp
    from open_dirs_loop_total[OF h1 this, of ev ?rest]
    obtain r fs' where r: "open_dirs_loop ev d ?rest fs1 = Some (r, fs')"
      by blast
    with assms(2)[of d fs1] have "r = None"
      by (cases r) auto
    with r eq show ?thesis by simp
  qed
qed

lemmas example_defs =
  example_fs_def all_ok_def root_dir_def dots_def blank_inode_def ROOT_DIR_SECTOR_def
  NAME_MAX_def

lemmas open_dirs_defs =
  dir_open_dirs_def dir_open_root_def dir_reopen_def dir_open_def dir_close_def
  inode_open_def inode_reopen_def inode_close_def inode_isdir_def inode_dir_lock_def
  open_dirs_fail_def release_if_held_def lock_held_by_current_thread_def
  lock_acquire_def lock_release_def dir_lookup_def

text \<open>
  C7, as amended: a path in which two adjacent \<^verbatim>\<open>/\<close> are followed by at least one
  more character resolves exactly as the path with one of the two removed
  (same result, same state); and, called by a thread that holds no directory
  lock, \<^verbatim>\<open>dir_open_dirs\<close> returns \<^verbatim>\<open>NULL\<close> for every path that ends in \<^verbatim>\<open>/\<close>, other
  than the path \<^verbatim>\<open>/\<close> itself.
\<close>

theorem open_dirs_canonical:
  "(q \<noteq> [] \<longrightarrow>
      dir_open_dirs ev cwd (p @ ''//'' @ q) fs = dir_open_dirs ev cwd (p @ ''/'' @ q) fs) \<and>
   (held fs = {} \<and> p \<noteq> [] \<longrightarrow>
      (\<exists>fs'. dir_open_dirs ev cwd (p @ ''/'') fs = Some (None, fs')))"
proof (intro conjI impI)
  assume q: "q \<noteq> []"
  show "dir_open_dirs ev cwd (p @ ''//'' @ q) fs = dir_open_dirs ev cwd (p @ ''/'' @ q) fs"
  proof (cases p)
    case Nil
    with q show ?thesis
      by (simp add: dir_open_dirs_def open_dirs_loop_skip split: prod.splits option.splits)
  next
    case (Cons c p')
    with q show ?thesis
      using open_dirs_loop_collapse[OF q, of ev _ p'] open_dirs_loop_collapse[OF q, of ev _ p]
      by (simp add: dir_open_dirs_def split: prod.splits option.splits)
  qed
next
  assume a: "held fs = {} \<and> p \<noteq> []"
  let ?path = "p @ ''/''"
  let ?rest = "if ?path \<noteq> [] \<and> hd ?path = CHR ''/'' then tl ?path else ?path"
  from a have "?rest \<noteq> [] \<and> last ?rest = CHR ''/''"
    by (cases p) auto
  then have "open_dirs_loop ev d ?rest fs1 \<noteq> Some (Some d', fs')" for d fs1 d' fs'
    using open_dirs_loop_trailing[of ?rest ev d fs1 d' fs'] by blast
  with a show "\<exists>fs'. dir_open_dirs ev cwd ?path fs = Some (None, fs')"
    by (intro dir_open_dirs_rejects) simp_all
qed

theorem open_dirs_canonical_witness:
  "''b'' \<noteq> [] \<and>
   dir_open_dirs all_ok root_dir (''/a'' @ ''//'' @ ''b'') example_fs =
     dir_open_dirs all_ok root_dir (''/a'' @ ''/'' @ ''b'') example_fs \<and>
   map_option fst (dir_open_dirs all_ok root_dir ''/a/b'' example_fs) =
     Some (Some \<lparr>inode = 5, lock = 5, pos = 2\<rparr>) \<and>
   held example_fs = {} \<and> ''/a'' \<noteq> [] \<and>
   (\<exists>fs'. dir_open_dirs all_ok root_dir (''/a'' @ ''/'') example_fs = Some (None, fs'))"
proof -
  have h: "held example_fs = {}"
    by (simp add: example_fs_def)
  have r: "map_option fst (dir_open_dirs all_ok root_dir ''/a/b'' example_fs) =
     Some (Some \<lparr>inode = 5, lock = 5, pos = 2\<rparr>)"
    by (simp add: open_dirs_defs example_defs lookup_guarded named_def
        open_dirs_loop.simps[of _ _ "''a/b''"] open_dirs_loop.simps[of _ _ "''b''"])
  from open_dirs_canonical[of "''b''" all_ok root_dir "''/a''" example_fs] h r
  show ?thesis by simp
qed

text \<open>
  C7, as stated, fails: the path \<^verbatim>\<open>/\<close> ends in \<^verbatim>\<open>/\<close> and resolves to the root
  directory, while \<^verbatim>\<open>//\<close> is rejected, so the two do not resolve alike either.
\<close>

theorem root_path_counterexample:
  "last ''/'' = CHR ''/'' \<and> held example_fs = {} \<and>
   map_option fst (dir_open_dirs all_ok root_dir ''/'' example_fs) =
     Some (Some \<lparr>inode = 1, lock = 1, pos = 2\<rparr>) \<and>
   map_option fst (dir_open_dirs all_ok root_dir ''//'' example_fs) = Some None"
  by (simp add: open_dirs_defs example_defs
      open_dirs_loop.simps[of _ _ "[]"] open_dirs_loop.simps[of _ _ "''/''"])

text \<open>
  C8, as amended: when a component of the path that is followed by a \<^verbatim>\<open>/\<close> (any
  component but the last) has more than \<^verbatim>\<open>NAME_MAX\<close> characters, \<^verbatim>\<open>dir_open_dirs\<close>,
  called by a thread that holds no directory lock, returns \<^verbatim>\<open>NULL\<close>.
\<close>

theorem open_dirs_long_component:
  assumes "held fs = {}" and "CHR ''/'' \<notin> set cn" and "NAME_MAX < length cn"
    and "pre = [] \<or> last pre = CHR ''/''"
  shows "\<exists>fs'. dir_open_dirs ev cwd (pre @ cn @ CHR ''/'' # rest) fs = Some (None, fs')"
proof -
  let ?path = "pre @ cn @ CHR ''/'' # rest"
  let ?rest = "if ?path \<noteq> [] \<and> hd ?path = CHR ''/'' then tl ?path else ?path"
  from assms(3) have cne: "cn \<noteq> []" by auto
  have "\<exists>pre'. ?rest = pre' @ cn @ CHR ''/'' # rest \<and> (pre' = [] \<or> last pre' = CHR ''/'')"
  proof (cases pre)
    case Nil
    with cne assms(2) show ?thesis
      by (cases cn) auto
  next
    case (Cons c pre')
    show ?thesis
    proof (cases "c = CHR ''/''")
      case True
      with Cons assms(4) show ?thesis
        by (auto split: if_splits)
    next
      case False
      with Cons assms(4) show ?thesis
        by auto
    qed
  qed
  then obtain pre' where r: "?rest = pre' @ cn @ CHR ''/'' # rest"
    and l: "pre' = [] \<or> last pre' = CHR ''/''"
    by blast
  have "open_dirs_loop ev d ?rest fs1 \<noteq> Some (Some d', fs')" for d fs1 d' fs'
    by (rule open_dirs_loop_long[OF r assms(2,3) l])
  with assms(1) show ?thesis
    by (intro dir_open_dirs_rejects) simp_all
qed

theorem open_dirs_long_component_witness:
  "held example_fs = {} \<and> CHR ''/'' \<notin> set ''aaaaaaaaaaaaaaa'' \<and>
   NAME_MAX < length ''aaaaaaaaaaaaaaa'' \<and>
   (\<exists>fs'. dir_open_dirs all_ok root_dir ''/aaaaaaaaaaaaaaa/b'' example_fs = Some (None, fs'))"
proof -
  have 1: "held example_fs = {}"
    by (simp add: example_fs_def)
  have 2: "CHR ''/'' \<notin> set ''aaaaaaaaaaaaaaa''" and 3: "NAME_MAX < length ''aaaaaaaaaaaaaaa''"
    by (simp_all add: NAME_MAX_def)
  have 4: "''/'' = [] \<or> last ''/'' = CHR ''/''"
    by simp
  from open_dirs_long_component[OF 1 2 3 4, of all_ok root_dir "''b''"] 1 2 3
  show ?thesis by simp
qed

text \<open>
  C8, as stated, fails: the last component is never measured. A relative path
  that is one name of \<^verbatim>\<open>NAME_MAX\<close> + 1 characters resolves to the reopened
  working directory.
\<close>

theorem long_last_component_counterexample:
  "NAME_MAX < length ''aaaaaaaaaaaaaaa'' \<and>
   map_option fst (dir_open_dirs all_ok root_dir ''aaaaaaaaaaaaaaa'' example_fs) =
     Some (Some \<lparr>inode = 1, lock = 1, pos = 2\<rparr>)"
  by (simp add: open_dirs_defs example_defs open_dirs_loop.simps[of _ _ "''aaaaaaaaaaaaaaa''"])

subsection \<open>The locking discipline\<close>

lemma scan_entries_unguarded:
  "i \<notin> held fs \<Longrightarrow>
   length (unguarded fs) < length (unguarded (snd (scan_entries stop i ofs fs)))"
proof (induction stop i ofs fs rule: scan_entries.induct)
  case (1 stop i ofs fs)
  have step: "length (unguarded fs) < length (unguarded (note_access i fs))"
    using "1.prems" by (simp add: note_access_unguarded)
  show ?case
  proof (cases "ofs < length (data (inodes fs i)) \<and> \<not> stop (data (inodes fs i) ! ofs)")
    case True
    then have "snd (scan_entries stop i ofs fs) =
        snd (scan_entries stop i (Suc ofs) (note_access i fs))"
      by (subst scan_entries.simps) (simp add: inode_read_at_def)
    moreover have "length (unguarded (note_access i fs)) <
        length (unguarded (snd (scan_entries stop i (Suc ofs) (note_access i fs))))"
      using True "1.prems" by (intro "1.IH") (auto simp: inode_read_at_def)
    ultimately show ?thesis
      using step by simp
  next
    case False
    then have "snd (scan_entries stop i ofs fs) = note_access i fs"
      by (subst scan_entries.simps) (auto simp: inode_read_at_def)
    with step show ?thesis by simp
  qed
qed

lemma dir_lookup_unguarded:
  assumes "inode d \<notin> held fs"
  shows "unguarded (snd (snd (dir_lookup ev d nm fs))) \<noteq> unguarded fs"
proof -
  let ?sc = "scan_entries (\<lambda>e. in_use e \<and> nm = name e) (inode d) 0 fs"
  have "unguarded (snd (snd (dir_lookup ev d nm fs))) = unguarded (snd ?sc)"
    by (simp add: dir_lookup_def lookup_def inode_open_def split: prod.splits option.splits)
  with scan_entries_unguarded[OF assms, of "\<lambda>e. in_use e \<and> nm = name e" 0] show ?thesis
    by auto
qed

lemma dir_readdir_result:
  "lock d = inode d \<Longrightarrow> inode d \<notin> held fs \<Longrightarrow>
   \<exists>r d'. dir_readdir d fs =
     Some (r, d', fs\<lparr>lock_log := lock_log fs @ [Acquire (inode d), Release (inode d)]\<rparr>)"
  by (simp add: dir_readdir_def lock_acquire_def lock_release_def scan_entries_guarded
      split: prod.splits option.splits)

lemma dir_remove_total:
  assumes "lock d = inode d" and "held fs = {}" and "1 \<le> open_cnt (inodes fs (inode d))"
  shows "\<exists>b fs'. dir_remove ev d nm fs = Some (b, fs') \<and> held fs' = {} \<and>
           unguarded fs' = unguarded fs \<and>
           (lock_log fs' = lock_log fs @ [Acquire (lock d), Release (lock d)] \<or>
            (\<exists>c. c \<noteq> lock d \<and>
                 lock_log fs' =
                   lock_log fs @ [Acquire (lock d), Acquire c, Release c, Release (lock d)]))"
proof -
  obtain r k where r: "first_from (named nm) (data (inodes fs (inode d))) 0 = (r, k)"
    by (cases "first_from (named nm) (data (inodes fs (inode d))) 0")
  show ?thesis
  proof (cases r)
    case None
    with assms r show ?thesis
      by (auto simp: dir_remove_defs lookup_guarded)
  next
    case (Some e)
    show ?thesis
    proof (cases "inode_sector e = inode d")
      case True
      with assms r Some show ?thesis
        by (auto simp: dir_remove_defs lookup_guarded)
    next
      case False
      with assms r Some show ?thesis
        by (auto simp: dir_remove_defs lookup_guarded dir_empty_cases)
    qed
  qed
qed

lemma dir_open_dirs_total:
  assumes "held fs = {}"
  shows "\<exists>r fs' ls. dir_open_dirs ev cwd filepath fs = Some (r, fs') \<and> held fs' = {} \<and>
           unguarded fs' = unguarded fs \<and> lock_log fs' = lock_log fs @ one_by_one ls"
proof -
  let ?abs = "filepath \<noteq> [] \<and> hd filepath = CHR ''/''"
  let ?rest = "if ?abs then tl filepath else filepath"
  obtain dp fs1 where st: "(if ?abs then dir_open_root ev fs else dir_reopen ev cwd fs) = (dp, fs1)"
    by (cases "if ?abs then dir_open_root ev fs else dir_reopen ev cwd fs")
  then have "dir_open_root ev fs = (dp, fs1) \<or> dir_reopen ev cwd fs = (dp, fs1)"
    by (auto split: if_splits)
  from open_dirs_start_state[OF this] assms
  have h1: "held fs1 = {}" and u1: "unguarded fs1 = unguarded fs"
    and g1: "lock_log fs1 = lock_log fs"
    and l1: "\<forall>d. dp = Some d \<longrightarrow> lock d = inode d"
    by simp_all
  show ?thesis
  proof (cases dp)
    case None
    with st have "dir_open_dirs ev cwd filepath fs = open_dirs_fail None fs1"
      by (auto simp: dir_open_dirs_def split: if_splits)
    with open_dirs_fail_result[OF h1, of None] u1 g1
    obtain fs' where "dir_open_dirs ev cwd filepath fs = Some (None, fs') \<and> held fs' = {} \<and>
        unguarded fs' = unguarded fs \<and> lock_log fs' = lock_log fs @ one_by_one []"
      by auto
    then show ?thesis by blast
  next
    case (Some d)
    with st have eq: "dir_open_dirs ev cwd filepath fs = open_dirs_loop ev d ?rest fs1"
      by (auto simp: dir_open_dirs_def split: if_splits)
    from l1 Some have "lock d = inode d" by simp
    from open_dirs_loop_total[OF h1 this, of ev ?rest] eq u1 g1 show ?thesis
      by auto
  qed
qed

text \<open>
  C3, as amended. Let a thread that holds no directory lock call an operation
  on an open directory \<open>d\<close> whose lock is the lock of its inode. \<^verbatim>\<open>dir_add\<close>,
  \<^verbatim>\<open>dir_remove\<close>, \<^verbatim>\<open>dir_empty\<close> and \<^verbatim>\<open>dir_readdir\<close> return with no lock held,
  having acquired the lock of \<open>d\<close> once and released it once, and having made
  every read and write of a directory while holding that directory's lock: so
  each takes the lock itself before its first access and holds it without
  interruption until after its last. (\<^verbatim>\<open>dir_add\<close> of an empty or too long name
  returns without an access and without the lock; the only lock taken in
  between is, in \<^verbatim>\<open>dir_remove\<close> of a directory, the lock of that other
  directory, around the scan of \<^verbatim>\<open>dir_empty\<close>.) \<^verbatim>\<open>dir_lookup\<close> acquires and
  releases no lock: called without the lock, it reads the directory unguarded;
  its reads are under the lock when the caller holds it. \<^verbatim>\<open>dir_open_dirs\<close>, which
  calls it, takes the locks one by one, and every read made during the call is
  under the lock of the directory read.
\<close>

theorem directory_lock_discipline:
  assumes "lock d = inode_dir_lock (inode d)" and "held fs = {}"
    and "1 \<le> open_cnt (inodes fs (inode d))"
  shows "(\<exists>b fs'. dir_add ev d nm sector fs = Some (b, fs') \<and> held fs' = {} \<and>
            unguarded fs' = unguarded fs \<and>
            lock_log fs' = lock_log fs @
              (if nm = [] \<or> NAME_MAX < length nm then []
               else [Acquire (lock d), Release (lock d)])) \<and>
         (\<exists>b fs'. dir_remove ev d nm fs = Some (b, fs') \<and> held fs' = {} \<and>
            unguarded fs' = unguarded fs \<and>
            (lock_log fs' = lock_log fs @ [Acquire (lock d), Release (lock d)] \<or>
             (\<exists>c. c \<noteq> lock d \<and>
                  lock_log fs' =
                    lock_log fs @ [Acquire (lock d), Acquire c, Release c, Release (lock d)]))) \<and>
         (\<exists>b fs'. dir_empty d fs = Some (b, fs') \<and> held fs' = {} \<and>
            unguarded fs' = unguarded fs \<and>
            lock_log fs' = lock_log fs @ [Acquire (lock d), Release (lock d)]) \<and>
         (\<exists>r d' fs'. dir_readdir d fs = Some (r, d', fs') \<and> held fs' = {} \<and>
            unguarded fs' = unguarded fs \<and>
            lock_log fs' = lock_log fs @ [Acquire (lock d), Release (lock d)]) \<and>
         held (snd (snd (dir_lookup ev d nm fs))) = {} \<and>
         lock_log (snd (snd (dir_lookup ev d nm fs))) = lock_log fs \<and>
         unguarded (snd (snd (dir_lookup ev d nm fs))) \<noteq> unguarded fs \<and>
         (\<exists>fs1. lock_acquire (lock d) fs = Some fs1 \<and>
            unguarded (snd (snd (dir_lookup ev d nm fs1))) = unguarded fs1) \<and>
         (\<exists>r fs' ls. dir_open_dirs ev cwd filepath fs = Some (r, fs') \<and> held fs' = {} \<and>
            unguarded fs' = unguarded fs \<and> lock_log fs' = lock_log fs @ one_by_one ls)"
proof -
  from assms(1) have l: "lock d = inode d"
    by (simp add: inode_dir_lock_def)
  from assms(2) have h: "inode d \<notin> held fs"
    by simp
  have add: "\<exists>b fs'. dir_add ev d nm sector fs = Some (b, fs') \<and> held fs' = {} \<and>
            unguarded fs' = unguarded fs \<and>
            lock_log fs' = lock_log fs @
              (if nm = [] \<or> NAME_MAX < length nm then []
               else [Acquire (lock d), Release (lock d)])"
    using assms(2) l by (auto simp: dir_add_result[OF l h])
  have rm: "\<exists>b fs'. dir_remove ev d nm fs = Some (b, fs') \<and> held fs' = {} \<and>
            unguarded fs' = unguarded fs \<and>
            (lock_log fs' = lock_log fs @ [Acquire (lock d), Release (lock d)] \<or>
             (\<exists>c. c \<noteq> lock d \<and>
                  lock_log fs' =
                    lock_log fs @ [Acquire (lock d), Acquire c, Release c, Release (lock d)]))"
    by (rule dir_remove_total[OF l assms(2,3)])
  have em: "\<exists>b fs'. dir_empty d fs = Some (b, fs') \<and> held fs' = {} \<and>
            unguarded fs' = unguarded fs \<and>
            lock_log fs' = lock_log fs @ [Acquire (lock d), Release (lock d)]"
    using assms(2) l by (simp add: dir_empty_result[OF l h])
  have rd: "\<exists>r d' fs'. dir_readdir d fs = Some (r, d', fs') \<and> held fs' = {} \<and>
            unguarded fs' = unguarded fs \<and>
            lock_log fs' = lock_log fs @ [Acquire (lock d), Release (lock d)]"
    using dir_readdir_result[OF l h] assms(2) l by auto
  obtain found ino fs2 where lk: "dir_lookup ev d nm fs = (found, ino, fs2)"
    by (cases "dir_lookup ev d nm fs") auto
  from dir_lookup_state[OF lk] assms(2) lk
  have lh: "held (snd (snd (dir_lookup ev d nm fs))) = {}"
    and ll: "lock_log (snd (snd (dir_lookup ev d nm fs))) = lock_log fs"
    by simp_all
  have lu: "unguarded (snd (snd (dir_lookup ev d nm fs))) \<noteq> unguarded fs"
    by (rule dir_lookup_unguarded[OF h])
  let ?fs1 = "fs\<lparr>held := insert (lock d) (held fs), lock_log := lock_log fs @ [Acquire (lock d)]\<rparr>"
  have acq: "lock_acquire (lock d) fs = Some ?fs1"
    using assms(2) by (simp add: lock_acquire_def)
  obtain found1 ino1 fs3 where lk1: "dir_lookup ev d nm ?fs1 = (found1, ino1, fs3)"
    by (cases "dir_lookup ev d nm ?fs1") auto
  from dir_lookup_state[OF lk1] l lk1
  have "unguarded (snd (snd (dir_lookup ev d nm ?fs1))) = unguarded ?fs1"
    by simp
  with acq have lg: "\<exists>fs1. lock_acquire (lock d) fs = Some fs1 \<and>
            unguarded (snd (snd (dir_lookup ev d nm fs1))) = unguarded fs1"
    by blast
  have od: "\<exists>r fs' ls. dir_open_dirs ev cwd filepath fs = Some (r, fs') \<and> held fs' = {} \<and>
            unguarded fs' = unguarded fs \<and> lock_log fs' = lock_log fs @ one_by_one ls"
    by (rule dir_open_dirs_total[OF assms(2)])
  from add rm em rd lh ll lu lg od show ?thesis
    by blast
qed

theorem directory_lock_discipline_witness:
  "lock root_dir = inode_dir_lock (inode root_dir) \<and> held example_fs = {} \<and>
   1 \<le> open_cnt (inodes example_fs (inode root_dir)) \<and>
   (\<exists>b fs'. dir_add all_ok root_dir ''x'' 42 example_fs = Some (b, fs') \<and> held fs' = {} \<and>
      unguarded fs' = [] \<and> lock_log fs' = [Acquire 1, Release 1]) \<and>
   (\<exists>b fs'. dir_remove all_ok root_dir ''f'' example_fs = Some (b, fs') \<and> held fs' = {} \<and>
      unguarded fs' = [] \<and> lock_log fs' = [Acquire 1, Release 1]) \<and>
   (\<exists>b fs'. dir_remove all_ok root_dir ''e'' example_fs = Some (b, fs') \<and> held fs' = {} \<and>
      unguarded fs' = [] \<and> lock_log fs' = [Acquire 1, Acquire 8, Release 8, Release 1]) \<and>
   (\<exists>b fs'. dir_empty root_dir example_fs = Some (b, fs') \<and> held fs' = {} \<and>
      unguarded fs' = [] \<and> lock_log fs' = [Acquire 1, Release 1]) \<and>
   (\<exists>r d' fs'. dir_readdir root_dir example_fs = Some (r, d', fs') \<and> held fs' = {} \<and>
      unguarded fs' = [] \<and> lock_log fs' = [Acquire 1, Release 1]) \<and>
   lock_log (snd (snd (dir_lookup all_ok root_dir ''a'' example_fs))) = [] \<and>
   (\<exists>r fs'. dir_open_dirs all_ok root_dir ''/a/b/c'' example_fs = Some (r, fs') \<and>
      held fs' = {} \<and> unguarded fs' = [] \<and>
      lock_log fs' = [Acquire 1, Release 1, Acquire 5, Release 5])"
proof -
  have 1: "lock root_dir = inode_dir_lock (inode root_dir)" and 2: "held example_fs = {}"
    and 3: "1 \<le> open_cnt (inodes example_fs (inode root_dir))"
    by (simp_all add: root_dir_def example_fs_def inode_dir_lock_def)
  have e: "unguarded example_fs = []" "lock_log example_fs = []" "lock root_dir = 1"
    "inode root_dir = 1"
    by (simp_all add: example_fs_def root_dir_def)
  note t = directory_lock_discipline[OF 1 2 3]
  from t[of all_ok "''x''" 42]
  have add: "\<exists>b fs'. dir_add all_ok root_dir ''x'' 42 example_fs = Some (b, fs') \<and> held fs' = {} \<and>
      unguarded fs' = [] \<and> lock_log fs' = [Acquire 1, Release 1]"
    by (simp add: e NAME_MAX_def)
  have 4: "inode root_dir \<notin> held example_fs"
    by (simp add: 2)
  have f: "first_from (named ''f'') (data (inodes example_fs (inode root_dir))) 0 =
     (Some \<lparr>inode_sector = 7, name = ''f'', in_use = True\<rparr>, 3)"
    by (simp add: root_dir_def example_fs_def dots_def named_def)
  have "\<exists>fs'. dir_remove all_ok root_dir ''f'' example_fs = Some (True, fs') \<and>
      lock_log fs' = [Acquire 1, Release 1]"
    using dir_remove_of_file[OF _ 4 f, of all_ok]
    by (auto simp: e example_fs_def all_ok_def)
  with t[of all_ok "''f''"]
  have rf: "\<exists>b fs'. dir_remove all_ok root_dir ''f'' example_fs = Some (b, fs') \<and> held fs' = {} \<and>
      unguarded fs' = [] \<and> lock_log fs' = [Acquire 1, Release 1]"
    by (auto simp: e)
  have g: "first_from (named ''e'') (data (inodes example_fs (inode root_dir))) 0 =
     (Some \<lparr>inode_sector = 8, name = ''e'', in_use = True\<rparr>, 4)"
    by (simp add: root_dir_def example_fs_def dots_def named_def)
  have "\<exists>fs'. dir_remove all_ok root_dir ''e'' example_fs = Some (True, fs') \<and>
      lock_log fs' = [Acquire 1, Acquire 8, Release 8, Release 1]"
    using dir_remove_of_directory[OF _ 4 g, of all_ok]
    by (auto simp: e example_fs_def all_ok_def dots_def other_entry_def)
  with t[of all_ok "''e''"]
  have re: "\<exists>b fs'. dir_remove all_ok root_dir ''e'' example_fs = Some (b, fs') \<and> held fs' = {} \<and>
      unguarded fs' = [] \<and> lock_log fs' = [Acquire 1, Acquire 8, Release 8, Release 1]"
    by (auto simp: e)
  from t[of all_ok "''a''"]
  have em: "\<exists>b fs'. dir_empty root_dir example_fs = Some (b, fs') \<and> held fs' = {} \<and>
      unguarded fs' = [] \<and> lock_log fs' = [Acquire 1, Release 1]"
    and rd: "\<exists>r d' fs'. dir_readdir root_dir example_fs = Some (r, d', fs') \<and> held fs' = {} \<and>
      unguarded fs' = [] \<and> lock_log fs' = [Acquire 1, Release 1]"
    and lk: "lock_log (snd (snd (dir_lookup all_ok root_dir ''a'' example_fs))) = []"
    by (simp_all add: e)
  have "\<exists>r fs'. dir_open_dirs all_ok root_dir ''/a/b/c'' example_fs = Some (r, fs') \<and>
      lock_log fs' = [Acquire 1, Release 1, Acquire 5, Release 5]"
    by (simp add: open_dirs_defs example_defs lookup_guarded named_def
        open_dirs_loop.simps[of _ _ "''a/b/c''"] open_dirs_loop.simps[of _ _ "''b/c''"])
  with t[of all_ok "''a''" 42 root_dir "''/a/b/c''"]
  have od: "\<exists>r fs'. dir_open_dirs all_ok root_dir ''/a/b/c'' example_fs = Some (r, fs') \<and>
      held fs' = {} \<and> unguarded fs' = [] \<and>
      lock_log fs' = [Acquire 1, Release 1, Acquire 5, Release 5]"
    by (auto simp: e)
  from 1 2 3 add rf re em rd lk od show ?thesis
    by blast
qed

text \<open>
  C3, as stated, fails for \<^verbatim>\<open>dir_lookup\<close>: called by a thread that holds no lock,
  it returns with no lock held and none taken, after three reads of the root
  directory, none of them under the directory's lock.
\<close>

theorem dir_lookup_unlocked_counterexample:
  "held example_fs = {} \<and> lock_log example_fs = [] \<and>
   fst (dir_lookup all_ok root_dir ''a'' example_fs) = True \<and>
   held (snd (snd (dir_lookup all_ok root_dir ''a'' example_fs))) = {} \<and>
   lock_log (snd (snd (dir_lookup all_ok root_dir ''a'' example_fs))) = [] \<and>
   unguarded (snd (snd (dir_lookup all_ok root_dir ''a'' example_fs))) = [1, 1, 1]"
  by (simp add: dir_lookup_def lookup_def scan_entries.simps inode_read_at_def note_access_def
      inode_open_def inode_dir_lock_def example_defs)

end
